theory Spec2Isabelle
  imports Complex_Main "HOL-Library.AList" "HOL-Library.Log_Nat"
begin

section \<open>Data model (types.ts)\<close>

text \<open>
  The TypeScript interfaces become records. Field names carry a short prefix because a
  record field is a global constant (\<open>x\<close>, \<open>y\<close>, \<open>from\<close>, \<open>notes\<close>, \<open>line\<close> cannot be
  used as they stand). A coordinate is a rational; an optional coordinate
  (\<open>x?: number\<close>) is \<open>rat option\<close>, where \<open>None\<close> stands for \<open>undefined\<close> (and for
  \<open>NaN\<close>, which arithmetic on \<open>undefined\<close> yields). A y is 0 or the quotient of two
  integers, and the model holds the exact quotient; the code holds the double nearest to
  it, \<open>to_double\<close> below, which is what \<open>toFixed\<close> reads. An x is computed from
  several products and sums of doubles; the model computes it exactly.
  A string is a list of code units below 256.
\<close>

datatype EvolutionStage = Genesis | Custom | Product | Commodity

record Component =
  c_name :: string
  c_stage :: EvolutionStage
  c_isAnchor :: bool
  c_x :: "rat option"
  c_y :: "rat option"

record Dependency =
  d_from :: string
  d_to :: string
  d_label :: "string option"

text \<open>
  The stage of an evolution is the text captured from the line; the parser casts it to
  \<open>EvolutionStage\<close> without validating it, so at run time it is any word.
\<close>

record Evolution =
  e_from :: string
  e_to :: string
  e_stage :: string

record Annotation =
  a_id :: string
  a_text :: string

record WardleyMap =
  m_title :: "string option"
  m_components :: "Component list"
  m_dependencies :: "Dependency list"
  m_evolutions :: "Evolution list"
  m_annotations :: "Annotation list"
  m_notes :: "string list"

record ParseError =
  err_line :: nat
  err_message :: string

section \<open>Layout (renderer.ts)\<close>

fun STAGE_POSITIONS :: "EvolutionStage \<Rightarrow> rat" where
  "STAGE_POSITIONS Genesis = 125 / 1000"
| "STAGE_POSITIONS Custom = 375 / 1000"
| "STAGE_POSITIONS Product = 625 / 1000"
| "STAGE_POSITIONS Commodity = 875 / 1000"

subsection \<open>topologicalSort\<close>

text \<open>
  A JavaScript \<open>Map\<close> with string keys is an association list in insertion order:
  \<open>map_of\<close> is \<open>get\<close>, \<open>AList.update\<close> is \<open>set\<close> (an existing key keeps its place,
  a new key is appended). The three maps and the work queue of \<open>topologicalSort\<close> form
  the state of its loops.
\<close>

record topo =
  layers :: "(string \<times> nat) list"
  inDegree :: "(string \<times> int) list"
  graph :: "(string \<times> string list) list"
  queue :: "string list"

definition degree_or0 :: "(string \<times> int) list \<Rightarrow> string \<Rightarrow> int" where
  "degree_or0 m k = (case map_of m k of Some v \<Rightarrow> v | None \<Rightarrow> 0)"

definition layer_or0 :: "(string \<times> nat) list \<Rightarrow> string \<Rightarrow> nat" where
  "layer_or0 m k = (case map_of m k of Some v \<Rightarrow> v | None \<Rightarrow> 0)"

definition neighbors_of :: "(string \<times> string list) list \<Rightarrow> string \<Rightarrow> string list" where
  "neighbors_of g k = (case map_of g k of Some l \<Rightarrow> l | None \<Rightarrow> [])"

text \<open>Loop 1: every component starts with in-degree 0 and no neighbours.\<close>

definition init_step :: "Component \<Rightarrow> topo \<Rightarrow> topo" where
  "init_step c t =
     t\<lparr>inDegree := AList.update (c_name c) 0 (inDegree t),
       graph := AList.update (c_name c) [] (graph t)\<rparr>"

text \<open>
  Loop 2: the reversed edge \<open>to \<rightarrow> from\<close> is recorded only when \<open>to\<close> is a key of the
  graph (\<open>graph.get(dep.to)?.push(dep.from)\<close>); the in-degree of \<open>from\<close> always grows.
\<close>

definition edge_step :: "Dependency \<Rightarrow> topo \<Rightarrow> topo" where
  "edge_step dep t =
     t\<lparr>graph := (case map_of (graph t) (d_to dep) of
                    Some l \<Rightarrow> AList.update (d_to dep) (l @ [d_from dep]) (graph t)
                  | None \<Rightarrow> graph t),
       inDegree := AList.update (d_from dep) (degree_or0 (inDegree t) (d_from dep) + 1) (inDegree t)\<rparr>"

text \<open>Loop 3: the components of in-degree 0 seed the queue at layer 0.\<close>

definition seed_step :: "Component \<Rightarrow> topo \<Rightarrow> topo" where
  "seed_step c t =
     (if map_of (inDegree t) (c_name c) = Some 0
      then t\<lparr>queue := queue t @ [c_name c],
             layers := AList.update (c_name c) 0 (layers t)\<rparr>
      else t)"

text \<open>The body of the inner \<open>for\<close> loop, for one neighbour of the dequeued node.\<close>

definition relax :: "nat \<Rightarrow> string \<Rightarrow> topo \<Rightarrow> topo" where
  "relax currentLayer neighbor t =
     (let newDegree = degree_or0 (inDegree t) neighbor - 1;
          neighborLayer = layer_or0 (layers t) neighbor;
          t' = t\<lparr>inDegree := AList.update neighbor newDegree (inDegree t),
                 layers := AList.update neighbor (max neighborLayer (currentLayer + 1)) (layers t)\<rparr>
      in if newDegree = 0 then t'\<lparr>queue := queue t' @ [neighbor]\<rparr> else t')"

text \<open>
  The \<open>while (queue.length > 0)\<close> loop. It ends on every input: each round removes one
  queue entry, and an entry is added only when a positive in-degree drops to 0.
\<close>

definition pos_sum :: "(string \<times> int) list \<Rightarrow> nat" where
  "pos_sum m = sum_list (map (\<lambda>p. nat (snd p)) m)"

definition bfs_measure :: "topo \<Rightarrow> nat" where
  "bfs_measure t = length (queue t) + pos_sum (inDegree t)"

lemma pos_sum_update_absent:
  "map_of m k = None \<Longrightarrow> pos_sum (AList.update k v m) = pos_sum m + nat v"
  by (induction m) (auto simp: pos_sum_def)

lemma pos_sum_update_present:
  "map_of m k = Some w \<Longrightarrow> pos_sum (AList.update k v m) + nat w = pos_sum m + nat v"
  by (induction m) (auto simp: pos_sum_def)

lemma relax_measure: "bfs_measure (relax l n t) \<le> bfs_measure t"
proof (cases "map_of (inDegree t) n")
  case None
  then show ?thesis
    by (simp add: relax_def bfs_measure_def degree_or0_def Let_def pos_sum_update_absent)
next
  case (Some w)
  from pos_sum_update_present [OF Some, of "w - 1"]
  show ?thesis using Some
    by (auto simp: relax_def bfs_measure_def degree_or0_def Let_def)
qed

lemma fold_relax_measure: "bfs_measure (fold (relax l) ns t) \<le> bfs_measure t"
proof (induction ns arbitrary: t)
  case Nil
  show ?case by simp
next
  case (Cons n ns)
  have "bfs_measure (fold (relax l) ns (relax l n t)) \<le> bfs_measure (relax l n t)"
    by (rule Cons.IH)
  also have "\<dots> \<le> bfs_measure t" by (rule relax_measure)
  finally show ?case by simp
qed

function bfs :: "topo \<Rightarrow> topo" where
  "bfs t =
     (case queue t of
        [] \<Rightarrow> t
      | current # rest \<Rightarrow>
          bfs (fold (relax (layer_or0 (layers t) current))
                    (neighbors_of (graph t) current)
                    (t\<lparr>queue := rest\<rparr>)))"
  by pat_completeness auto
termination
proof (relation "measure bfs_measure")
  show "wf (measure bfs_measure)" by simp
next
  fix t :: topo and current rest
  assume q: "queue t = current # rest"
  have "bfs_measure (fold (relax (layer_or0 (layers t) current))
          (neighbors_of (graph t) current) (t\<lparr>queue := rest\<rparr>))
        \<le> bfs_measure (t\<lparr>queue := rest\<rparr>)"
    by (rule fold_relax_measure)
  also have "\<dots> < bfs_measure t"
    using q by (simp add: bfs_measure_def)
  finally show "(fold (relax (layer_or0 (layers t) current))
          (neighbors_of (graph t) current) (t\<lparr>queue := rest\<rparr>), t) \<in> measure bfs_measure"
    by simp
qed

declare bfs.simps [simp del]

definition topo_empty :: topo where
  "topo_empty = \<lparr>layers = [], inDegree = [], graph = [], queue = []\<rparr>"

definition topo_start :: "Component list \<Rightarrow> Dependency list \<Rightarrow> topo" where
  "topo_start comps deps =
     fold seed_step comps (fold edge_step deps (fold init_step comps topo_empty))"

definition topologicalSort :: "Component list \<Rightarrow> Dependency list \<Rightarrow> (string \<times> nat) list" where
  "topologicalSort comps deps = layers (bfs (topo_start comps deps))"

subsection \<open>calculatePositions\<close>



definition maxLayer_of :: "(string \<times> nat) list \<Rightarrow> nat" where
  "maxLayer_of ls = fold max (map snd ls) 0"

definition layer_y :: "nat \<Rightarrow> nat \<Rightarrow> rat" where
  "layer_y maxLayer layer = (of_nat maxLayer - of_nat layer) / (of_nat maxLayer + 1)"

text \<open>
  The body of the second loop: the y of the layer, then the anchor pin. \<open>place_y\<close> is
  the body with the value of \<open>maxLayer\<close> that an accepted call has returned.
\<close>

definition place_y_at :: "nat \<Rightarrow> (string \<times> nat) list \<Rightarrow> Component \<Rightarrow> Component" where
  "place_y_at maxLayer ls c =
     (let layer = layer_or0 ls (c_name c);
          c' = c\<lparr>c_y := Some (layer_y maxLayer layer)\<rparr>
      in if c_isAnchor c' then c'\<lparr>c_y := Some 0\<rparr> else c')"

definition place_y :: "(string \<times> nat) list \<Rightarrow> Component \<Rightarrow> Component" where
  "place_y ls c = place_y_at (maxLayer_of ls) ls c"

text \<open>
  \<open>map.components.find((c) => c.name === n)\<close> returns a reference to the first component
  of that name; the model returns its index, so that the assignment through the reference
  is an update of the list at that index.
\<close>

fun find_by_name :: "string \<Rightarrow> Component list \<Rightarrow> nat option" where
  "find_by_name n [] = None"
| "find_by_name n (c # cs) =
     (if c_name c = n then Some 0 else map_option Suc (find_by_name n cs))"

text \<open>The body of the evolution loop: the target takes the y the source has now.\<close>

definition inherit_y :: "Evolution \<Rightarrow> Component list \<Rightarrow> Component list" where
  "inherit_y evo comps =
     (case find_by_name (e_from evo) comps of
        None \<Rightarrow> comps
      | Some i \<Rightarrow>
          (case find_by_name (e_to evo) comps of
             None \<Rightarrow> comps
           | Some j \<Rightarrow>
               (case c_y (comps ! i) of
                  None \<Rightarrow> comps
                | Some v \<Rightarrow> comps[j := (comps ! j)\<lparr>c_y := Some v\<rparr>])))"

subsection \<open>spreadOverlappingComponents\<close>

text \<open>
  The double nearest to a positive rational (binary64, round to nearest, ties to even,
  normal range), as the rational it denotes: the rational is scaled by a power of two
  into \<open>[2^52, 2^53)\<close>, rounded to an integer and scaled back. The code divides two
  integers that doubles hold exactly, and a division of doubles returns the double
  nearest to the exact quotient.
\<close>

definition round_half_even :: "rat \<Rightarrow> int" where
  "round_half_even r =
     (let f = \<lfloor>r\<rfloor>; d = r - of_int f
      in if d < 1 / 2 then f else if 1 / 2 < d then f + 1 else if even f then f else f + 1)"

definition pow2 :: "int \<Rightarrow> rat" where
  "pow2 k = (if 0 \<le> k then 2 ^ nat k else 1 / 2 ^ nat (- k))"

definition to_double :: "rat \<Rightarrow> rat" where
  "to_double v =
     (if v \<le> 0 then 0
      else (let a = fst (quotient_of v); b = snd (quotient_of v);
                k0 = 52 + bitlen b - bitlen a;
                k = (if v * pow2 k0 < 2 ^ 52 then k0 + 1 else k0)
            in of_int (round_half_even (v * pow2 k)) / pow2 k))"

text \<open>
  The group key is the string \<open>y.toFixed(3) + "_" + stage\<close>. \<open>toFixed(3)\<close> prints a
  sign and the integer nearest to 1000 times the absolute value of the double (the
  larger one on a tie), so the pair of both stands for the printed text; \<open>None\<close> stands
  for the text of an undefined y.
\<close>

definition toFixed3 :: "rat \<Rightarrow> bool \<times> int" where
  "toFixed3 v = (v < 0, \<lfloor>to_double \<bar>v\<bar> * 1000 + 1 / 2\<rfloor>)"

type_synonym group_key = "(bool \<times> int) option \<times> EvolutionStage"

definition group_key :: "Component \<Rightarrow> group_key" where
  "group_key c = (map_option toFixed3 (c_y c), c_stage c)"

text \<open>A group holds references to its components: here, their indices in the array.\<close>

definition group_step :: "Component list \<Rightarrow> nat \<Rightarrow> (group_key \<times> nat list) list
    \<Rightarrow> (group_key \<times> nat list) list" where
  "group_step comps i groups =
     (let key = group_key (comps ! i);
          groups' = (if map_of groups key = None then AList.update key [] groups else groups)
      in AList.update key ((case map_of groups' key of Some g \<Rightarrow> g | None \<Rightarrow> []) @ [i]) groups')"

definition build_groups :: "Component list \<Rightarrow> (group_key \<times> nat list) list" where
  "build_groups comps = fold (group_step comps) [0..<length comps] []"

definition spread_offset :: "nat \<Rightarrow> nat \<Rightarrow> rat" where
  "spread_offset n index =
     (let baseSpread = 12 / 100;
          spreadMultiplier = max 1 (of_nat n / 3);
          spreadRange = baseSpread * spreadMultiplier
      in (of_nat index - (of_nat n - 1) / 2) * (spreadRange / max (of_nat n - 1) 1))"

definition spread_member :: "rat option \<Rightarrow> nat \<Rightarrow> nat \<times> nat \<Rightarrow> Component list \<Rightarrow> Component list" where
  "spread_member baseX n ii comps =
     comps[snd ii := (comps ! snd ii)\<lparr>c_x := map_option (\<lambda>b. b + spread_offset n (fst ii)) baseX\<rparr>]"

definition spread_group :: "nat list \<Rightarrow> Component list \<Rightarrow> Component list" where
  "spread_group grp comps =
     (if length grp > 1
      then fold (spread_member (c_x (comps ! hd grp)) (length grp)) (enumerate 0 grp) comps
      else comps)"

definition spreadOverlappingComponents :: "Component list \<Rightarrow> Component list" where
  "spreadOverlappingComponents comps =
     fold (\<lambda>kg. spread_group (snd kg)) (build_groups comps) comps"


definition calculatePositions :: "WardleyMap \<Rightarrow> WardleyMap" where
  "calculatePositions m =
     (let comps1 = map (\<lambda>c. c\<lparr>c_x := Some (STAGE_POSITIONS (c_stage c))\<rparr>) (m_components m);
          ls = topologicalSort comps1 (m_dependencies m);
          comps2 = map (place_y ls) comps1;
          comps3 = fold inherit_y (m_evolutions m) comps2
      in m\<lparr>m_components := spreadOverlappingComponents comps3\<rparr>)"

section \<open>Parser (parser.ts)\<close>

subsection \<open>Strings and regular expressions\<close>

text \<open>
  The string operations of the parser on code units below 256: white space (what
  \<open>trim\<close> removes and \<open>\s\<close> matches) is TAB, LF, VT, FF, CR, SP and NBSP; the dot of a
  regular expression matches everything but LF and CR; \<open>\w\<close> is a letter, a digit or the
  underscore.
\<close>

definition is_space :: "char \<Rightarrow> bool" where
  "is_space c = ((of_char c :: nat) \<in> {9, 10, 11, 12, 13, 32, 160})"

definition is_dot :: "char \<Rightarrow> bool" where
  "is_dot c = ((of_char c :: nat) \<notin> {10, 13})"

definition is_word :: "char \<Rightarrow> bool" where
  "is_word c =
     (let n = (of_char c :: nat)
      in (48 \<le> n \<and> n \<le> 57) \<or> (65 \<le> n \<and> n \<le> 90) \<or> (97 \<le> n \<and> n \<le> 122) \<or> n = 95)"

definition is_nonspace :: "char \<Rightarrow> bool" where
  "is_nonspace c = (\<not> is_space c)"

definition trim :: "string \<Rightarrow> string" where
  "trim s = rev (dropWhile is_space (rev (dropWhile is_space s)))"

definition startsWith :: "string \<Rightarrow> string \<Rightarrow> bool" where
  "startsWith s p = (take (length p) s = p)"

text \<open>\<open>s.split(c)\<close> for a one-character separator, and \<open>s.split("->")\<close>.\<close>

fun split_char :: "char \<Rightarrow> string \<Rightarrow> string list" where
  "split_char c [] = [[]]"
| "split_char c (x # xs) =
     (if x = c then [] # split_char c xs
      else (let r = split_char c xs in (x # hd r) # tl r))"

fun split_arrow :: "string \<Rightarrow> string list" where
  "split_arrow (x # y # zs) =
     (if x = CHR ''-'' \<and> y = CHR ''>'' then [] # split_arrow zs
      else (let r = split_arrow (y # zs) in (x # hd r) # tl r))"
| "split_arrow s = [s]"

fun includes_arrow :: "string \<Rightarrow> bool" where
  "includes_arrow (x # y # zs) = ((x = CHR ''-'' \<and> y = CHR ''>'') \<or> includes_arrow (y # zs))"
| "includes_arrow s = False"

text \<open>
  The five patterns of the parser are anchored at both ends and are sequences of literal
  text and of one-or-more repetitions of a character class, greedy (\<open>\s+\<close>, \<open>\w+\<close>) or
  lazy (\<open>.+?\<close>). A backtracking matcher tries the lengths of a repetition in order, the
  longest first for a greedy one and the shortest first for a lazy one, and takes the
  first length with which the rest of the pattern matches. The result lists the text of
  every repetition, from left to right.
\<close>

datatype atom = Lit string | Greedy "char \<Rightarrow> bool" | Lazy "char \<Rightarrow> bool"

fun try_lengths :: "(string \<Rightarrow> string list option) \<Rightarrow> string \<Rightarrow> nat list \<Rightarrow> string list option" where
  "try_lengths k s [] = None"
| "try_lengths k s (n # ns) =
     (case k (drop n s) of
        Some r \<Rightarrow> Some (take n s # r)
      | None \<Rightarrow> try_lengths k s ns)"

primrec rmatch :: "atom list \<Rightarrow> string \<Rightarrow> string list option" where
  "rmatch [] s = (if s = [] then Some [] else None)"
| "rmatch (a # as) s =
     (case a of
        Lit l \<Rightarrow> if take (length l) s = l then rmatch as (drop (length l) s) else None
      | Greedy p \<Rightarrow> try_lengths (rmatch as) s (rev [1..<Suc (length (takeWhile p s))])
      | Lazy p \<Rightarrow> try_lengths (rmatch as) s [1..<Suc (length (takeWhile p s))])"

text \<open>\<open>/^component\s+(.+?)\s+\[(\w+)\]$/\<close> and \<open>/^anchor\s+(.+?)\s+\[(\w+)\]$/\<close>.\<close>

definition declMatch :: "string \<Rightarrow> string \<Rightarrow> (string \<times> string) option" where
  "declMatch kw line =
     (case rmatch [Lit kw, Greedy is_space, Lazy is_dot, Greedy is_space,
                   Lit ''['', Greedy is_word, Lit '']''] line of
        Some [_, g1, _, g2] \<Rightarrow> Some (g1, g2)
      | _ \<Rightarrow> None)"

definition componentMatch :: "string \<Rightarrow> (string \<times> string) option" where
  "componentMatch line = declMatch ''component'' line"

definition anchorMatch :: "string \<Rightarrow> (string \<times> string) option" where
  "anchorMatch line = declMatch ''anchor'' line"

text \<open>\<open>/^evolve\s+(.+?)\s+->\s+(.+?)\s+\[(\w+)\]$/\<close>.\<close>

definition evolveMatch :: "string \<Rightarrow> (string \<times> string \<times> string) option" where
  "evolveMatch line =
     (case rmatch [Lit ''evolve'', Greedy is_space, Lazy is_dot, Greedy is_space, Lit ''->'',
                   Greedy is_space, Lazy is_dot, Greedy is_space,
                   Lit ''['', Greedy is_word, Lit '']''] line of
        Some [_, g1, _, _, g2, _, g3] \<Rightarrow> Some (g1, g2, g3)
      | _ \<Rightarrow> None)"

text \<open>\<open>/^evolve\s+(.+?)\s+\[(\w+)\]$/\<close>.\<close>

definition evolveStageMatch :: "string \<Rightarrow> (string \<times> string) option" where
  "evolveStageMatch line = declMatch ''evolve'' line"

text \<open>\<open>/^annotation\s+(\S+)\s+(.+)$/\<close>.\<close>

definition annotationMatch :: "string \<Rightarrow> (string \<times> string) option" where
  "annotationMatch line =
     (case rmatch [Lit ''annotation'', Greedy is_space, Greedy is_nonspace, Greedy is_space,
                   Greedy is_dot] line of
        Some [_, g1, _, g2] \<Rightarrow> Some (g1, g2)
      | _ \<Rightarrow> None)"

definition isValidStage :: "string \<Rightarrow> bool" where
  "isValidStage stage = (stage \<in> set [''genesis'', ''custom'', ''product'', ''commodity''])"

text \<open>The cast \<open>as EvolutionStage\<close>, used on a text that has passed \<open>isValidStage\<close>.\<close>

definition as_stage :: "string \<Rightarrow> EvolutionStage" where
  "as_stage stage =
     (if stage = ''genesis'' then Genesis
      else if stage = ''custom'' then Custom
      else if stage = ''product'' then Product
      else Commodity)"

subsection \<open>parseDependencyChain\<close>

text \<open>
  One round of the loop over \<open>parts\<close>, for the pair \<open>parts[i]\<close>, \<open>parts[i + 1]\<close>. The text
  after the first semicolon of the target is the label; the source loses its semicolon
  part only when \<open>i = 0\<close>.
\<close>

definition chain_edge :: "nat \<Rightarrow> string \<Rightarrow> string \<Rightarrow> Dependency" where
  "chain_edge i p q =
     (let from0 = trim p;
          to0 = trim q;
          hasLabel = (CHR '';'' \<in> set to0);
          label = (if hasLabel then Some (trim (tl (dropWhile (\<lambda>c. c \<noteq> CHR '';'') to0))) else None);
          to1 = (if hasLabel then trim (takeWhile (\<lambda>c. c \<noteq> CHR '';'') to0) else to0);
          from1 = (if i = 0 \<and> CHR '';'' \<in> set from0
                   then trim (takeWhile (\<lambda>c. c \<noteq> CHR '';'') from0) else from0)
      in \<lparr>d_from = from1, d_to = to1, d_label = label\<rparr>)"

fun chain_edges :: "nat \<Rightarrow> string list \<Rightarrow> Dependency list" where
  "chain_edges i (p # q # rest) = chain_edge i p q # chain_edges (Suc i) (q # rest)"
| "chain_edges i parts = []"

text \<open>
  The function pushes its edges onto \<open>dependencies\<close> and touches neither
  \<open>componentMap\<close> nor \<open>errors\<close>; the model returns the extended list.
\<close>

definition parseDependencyChain :: "string \<Rightarrow> Dependency list \<Rightarrow> Dependency list" where
  "parseDependencyChain line deps = deps @ chain_edges 0 (split_arrow line)"

subsection \<open>parseWardleyMap\<close>

text \<open>
  The state of the loop over the lines: the map under construction, the error list and
  \<open>componentMap\<close> (a \<open>Map\<close> again, so an association list).
\<close>

record pstate =
  ps_map :: WardleyMap
  ps_errors :: "ParseError list"
  ps_componentMap :: "(string \<times> Component) list"

definition has :: "(string \<times> 'v) list \<Rightarrow> string \<Rightarrow> bool" where
  "has m k = (map_of m k \<noteq> None)"

definition push_error :: "nat \<Rightarrow> string \<Rightarrow> pstate \<Rightarrow> pstate" where
  "push_error lineNum msg st =
     st\<lparr>ps_errors := ps_errors st @ [\<lparr>err_line = lineNum, err_message = msg\<rparr>]\<rparr>"

definition quoted :: "string \<Rightarrow> string" where
  "quoted s = [CHR 0x27] @ s @ [CHR 0x27]"

definition msg_invalid_stage :: "string \<Rightarrow> string" where
  "msg_invalid_stage stage =
     ''Invalid evolution stage '' @ quoted stage @ ''. Must be: genesis, custom, product, commodity''"

definition msg_duplicate :: "string \<Rightarrow> string" where
  "msg_duplicate n = ''Component '' @ quoted n @ '' declared multiple times''"

definition msg_not_declared :: "string \<Rightarrow> string" where
  "msg_not_declared n = ''Component '' @ quoted n @ '' not declared''"

definition msg_referenced :: "string \<Rightarrow> string" where
  "msg_referenced n = ''Component '' @ quoted n @ '' referenced but not declared''"

definition msg_unknown :: "string \<Rightarrow> string" where
  "msg_unknown line = ''Unknown syntax: '' @ line"

text \<open>The branch shared by \<open>component\<close> and \<open>anchor\<close> lines, which differ in \<open>isAnchor\<close>.\<close>

definition declare_component :: "bool \<Rightarrow> nat \<Rightarrow> string \<times> string \<Rightarrow> pstate \<Rightarrow> pstate" where
  "declare_component anchor lineNum groups st =
     (let n = trim (fst groups);
          stage = snd groups
      in if \<not> isValidStage stage then push_error lineNum (msg_invalid_stage stage) st
         else if has (ps_componentMap st) n then push_error lineNum (msg_duplicate n) st
         else (let component = \<lparr>c_name = n, c_stage = as_stage stage, c_isAnchor = anchor,
                                 c_x = None, c_y = None\<rparr>
               in st\<lparr>ps_componentMap := AList.update n component (ps_componentMap st),
                     ps_map := (ps_map st)\<lparr>m_components := m_components (ps_map st) @ [component]\<rparr>\<rparr>))"

definition evolve_components :: "nat \<Rightarrow> string \<times> string \<times> string \<Rightarrow> pstate \<Rightarrow> pstate" where
  "evolve_components lineNum groups st =
     (let src = trim (fst groups);
          tgt = trim (fst (snd groups));
          stage = snd (snd groups)
      in if \<not> has (ps_componentMap st) src then push_error lineNum (msg_not_declared src) st
         else if \<not> has (ps_componentMap st) tgt then push_error lineNum (msg_not_declared tgt) st
         else st\<lparr>ps_map := (ps_map st)\<lparr>m_evolutions := m_evolutions (ps_map st)
                    @ [\<lparr>e_from = src, e_to = tgt, e_stage = stage\<rparr>]\<rparr>\<rparr>)"

definition evolve_stage :: "nat \<Rightarrow> string \<times> string \<Rightarrow> pstate \<Rightarrow> pstate" where
  "evolve_stage lineNum groups st =
     (let n = trim (fst groups)
      in if \<not> has (ps_componentMap st) n then push_error lineNum (msg_not_declared n) st
         else st)"

text \<open>
  The body of the loop over the lines, for line number \<open>lineNum\<close>. No operation of the
  body raises, so the \<open>catch\<close> branch is never taken and has no counterpart here.
\<close>

definition process_line :: "nat \<Rightarrow> string \<Rightarrow> pstate \<Rightarrow> pstate" where
  "process_line lineNum raw st =
     (let line = trim raw
      in if line = [] \<or> startsWith line ''#'' then st
         else if startsWith line ''title ''
           then st\<lparr>ps_map := (ps_map st)\<lparr>m_title := Some (trim (drop 6 line))\<rparr>\<rparr>
         else (case componentMatch line of
           Some groups \<Rightarrow> declare_component False lineNum groups st
         | None \<Rightarrow> (case anchorMatch line of
           Some groups \<Rightarrow> declare_component True lineNum groups st
         | None \<Rightarrow> (case evolveMatch line of
           Some groups \<Rightarrow> evolve_components lineNum groups st
         | None \<Rightarrow> (case evolveStageMatch line of
           Some groups \<Rightarrow> evolve_stage lineNum groups st
         | None \<Rightarrow>
           (if includes_arrow line
            then st\<lparr>ps_map := (ps_map st)\<lparr>m_dependencies :=
                       parseDependencyChain line (m_dependencies (ps_map st))\<rparr>\<rparr>
            else (case annotationMatch line of
              Some groups \<Rightarrow>
                st\<lparr>ps_map := (ps_map st)\<lparr>m_annotations := m_annotations (ps_map st)
                      @ [\<lparr>a_id = fst groups, a_text = snd groups\<rparr>]\<rparr>\<rparr>
            | None \<Rightarrow>
              (if startsWith line ''note ''
               then st\<lparr>ps_map := (ps_map st)\<lparr>m_notes :=
                          m_notes (ps_map st) @ [trim (drop 5 line)]\<rparr>\<rparr>
               else push_error lineNum (msg_unknown line) st))))))))"

text \<open>The pass over the collected dependencies, after the last line.\<close>

definition validate_dependency :: "Dependency \<Rightarrow> pstate \<Rightarrow> pstate" where
  "validate_dependency dep st =
     (let st1 = (if \<not> has (ps_componentMap st) (d_from dep)
                 then push_error 0 (msg_referenced (d_from dep)) st else st)
      in if \<not> has (ps_componentMap st1) (d_to dep)
         then push_error 0 (msg_referenced (d_to dep)) st1 else st1)"

definition pstate_empty :: pstate where
  "pstate_empty =
     \<lparr>ps_map = \<lparr>m_title = None, m_components = [], m_dependencies = [], m_evolutions = [],
                m_annotations = [], m_notes = []\<rparr>,
      ps_errors = [], ps_componentMap = []\<rparr>"

definition parse_lines :: "string list \<Rightarrow> pstate \<Rightarrow> pstate" where
  "parse_lines lines st = fold (\<lambda>il. process_line (fst il) (snd il)) (enumerate 1 lines) st"

definition parse_state :: "string \<Rightarrow> pstate" where
  "parse_state source =
     (let st = parse_lines (split_char CHR 0x0A source) pstate_empty
      in fold validate_dependency (m_dependencies (ps_map st)) st)"

definition parseWardleyMap :: "string \<Rightarrow> WardleyMap option \<times> ParseError list" where
  "parseWardleyMap source =
     (let st = parse_state source
      in (if length (ps_errors st) = 0 then Some (ps_map st) else None, ps_errors st))"

section \<open>The standalone generator (generate-svg.js)\<close>

text \<open>
  The file carries its own copy of the parser and of the layout. Its \<open>topologicalSort\<close>
  is the one of the renderer, statement by statement (\<open>||\<close> for \<open>??\<close>, which agree on
  numbers and arrays), so the model shares it; the functions that differ are modelled
  again, with the prefix \<open>gs_\<close>.
\<close>

definition gs_msg_invalid_stage :: "string \<Rightarrow> string" where
  "gs_msg_invalid_stage stage = ''Invalid evolution stage '' @ quoted stage"

definition gs_declare_component :: "bool \<Rightarrow> nat \<Rightarrow> string \<times> string \<Rightarrow> pstate \<Rightarrow> pstate" where
  "gs_declare_component anchor lineNum groups st =
     (let n = trim (fst groups);
          stage = snd groups
      in if \<not> isValidStage stage then push_error lineNum (gs_msg_invalid_stage stage) st
         else if has (ps_componentMap st) n then push_error lineNum (msg_duplicate n) st
         else (let component = \<lparr>c_name = n, c_stage = as_stage stage, c_isAnchor = anchor,
                                 c_x = None, c_y = None\<rparr>
               in st\<lparr>ps_componentMap := AList.update n component (ps_componentMap st),
                     ps_map := (ps_map st)\<lparr>m_components := m_components (ps_map st) @ [component]\<rparr>\<rparr>))"

definition gs_chain_edge :: "string \<Rightarrow> string \<Rightarrow> Dependency" where
  "gs_chain_edge p q =
     (let from0 = trim p;
          to0 = trim q;
          hasLabel = (CHR '';'' \<in> set to0);
          label = (if hasLabel then Some (trim (tl (dropWhile (\<lambda>c. c \<noteq> CHR '';'') to0))) else None);
          to1 = (if hasLabel then trim (takeWhile (\<lambda>c. c \<noteq> CHR '';'') to0) else to0)
      in \<lparr>d_from = from0, d_to = to1, d_label = label\<rparr>)"

fun gs_chain_edges :: "string list \<Rightarrow> Dependency list" where
  "gs_chain_edges (p # q # rest) = gs_chain_edge p q # gs_chain_edges (q # rest)"
| "gs_chain_edges parts = []"

definition gs_parseDependencyChain :: "string \<Rightarrow> Dependency list \<Rightarrow> Dependency list" where
  "gs_parseDependencyChain line deps = deps @ gs_chain_edges (split_arrow line)"

text \<open>
  The loop body of the copy: an \<open>evolve\<close> line is stored unchecked, there is no branch
  for \<open>evolve <name> [<stage>]\<close>, and a line that matches nothing is passed over.
\<close>

definition gs_process_line :: "nat \<Rightarrow> string \<Rightarrow> pstate \<Rightarrow> pstate" where
  "gs_process_line lineNum raw st =
     (let line = trim raw
      in if line = [] \<or> startsWith line ''#'' then st
         else if startsWith line ''title ''
           then st\<lparr>ps_map := (ps_map st)\<lparr>m_title := Some (trim (drop 6 line))\<rparr>\<rparr>
         else (case componentMatch line of
           Some groups \<Rightarrow> gs_declare_component False lineNum groups st
         | None \<Rightarrow> (case anchorMatch line of
           Some groups \<Rightarrow> gs_declare_component True lineNum groups st
         | None \<Rightarrow> (case evolveMatch line of
           Some groups \<Rightarrow>
             st\<lparr>ps_map := (ps_map st)\<lparr>m_evolutions := m_evolutions (ps_map st)
                   @ [\<lparr>e_from = trim (fst groups), e_to = trim (fst (snd groups)),
                       e_stage = snd (snd groups)\<rparr>]\<rparr>\<rparr>
         | None \<Rightarrow>
           (if includes_arrow line
            then st\<lparr>ps_map := (ps_map st)\<lparr>m_dependencies :=
                       gs_parseDependencyChain line (m_dependencies (ps_map st))\<rparr>\<rparr>
            else (case annotationMatch line of
              Some groups \<Rightarrow>
                st\<lparr>ps_map := (ps_map st)\<lparr>m_annotations := m_annotations (ps_map st)
                      @ [\<lparr>a_id = fst groups, a_text = snd groups\<rparr>]\<rparr>\<rparr>
            | None \<Rightarrow>
              (if startsWith line ''note ''
               then st\<lparr>ps_map := (ps_map st)\<lparr>m_notes :=
                          m_notes (ps_map st) @ [trim (drop 5 line)]\<rparr>\<rparr>
               else st)))))))"

definition gs_parseWardleyMap :: "string \<Rightarrow> WardleyMap option \<times> ParseError list" where
  "gs_parseWardleyMap source =
     (let st = fold (\<lambda>il. gs_process_line (fst il) (snd il))
                 (enumerate 1 (split_char CHR 0x0A source)) pstate_empty
      in (if length (ps_errors st) = 0 then Some (ps_map st) else None, ps_errors st))"

definition gs_spread_offset :: "nat \<Rightarrow> nat \<Rightarrow> rat" where
  "gs_spread_offset n index =
     (let spreadRange = 8 / 100
      in (of_nat index - (of_nat n - 1) / 2) * (spreadRange / max (of_nat n - 1) 1))"

definition gs_spread_member :: "rat option \<Rightarrow> nat \<Rightarrow> nat \<times> nat \<Rightarrow> Component list \<Rightarrow> Component list" where
  "gs_spread_member baseX n ii comps =
     comps[snd ii := (comps ! snd ii)\<lparr>c_x := map_option (\<lambda>b. b + gs_spread_offset n (fst ii)) baseX\<rparr>]"

definition gs_spread_group :: "nat list \<Rightarrow> Component list \<Rightarrow> Component list" where
  "gs_spread_group grp comps =
     (if length grp > 1
      then fold (gs_spread_member (c_x (comps ! hd grp)) (length grp)) (enumerate 0 grp) comps
      else comps)"

definition gs_spreadOverlappingComponents :: "Component list \<Rightarrow> Component list" where
  "gs_spreadOverlappingComponents comps =
     fold (\<lambda>kg. gs_spread_group (snd kg)) (build_groups comps) comps"

definition gs_calculatePositions :: "WardleyMap \<Rightarrow> WardleyMap" where
  "gs_calculatePositions m =
     (let comps1 = map (\<lambda>c. c\<lparr>c_x := Some (STAGE_POSITIONS (c_stage c))\<rparr>) (m_components m);
          ls = topologicalSort comps1 (m_dependencies m);
          comps2 = map (place_y ls) comps1
      in m\<lparr>m_components := gs_spreadOverlappingComponents comps2\<rparr>)"

section \<open>The two pipelines\<close>

text \<open>
  Both callers parse, stop on errors, and otherwise lay the map out. The result keeps what
  the claims speak of: the error list and, for a map, name and coordinates of every
  component.
\<close>

definition placed :: "WardleyMap \<Rightarrow> (string \<times> rat option \<times> rat option) list" where
  "placed m = map (\<lambda>c. (c_name c, c_x c, c_y c)) (m_components m)"

definition pipeline :: "string \<Rightarrow> WardleyMap option \<times> ParseError list" where
  "pipeline source =
     (case parseWardleyMap source of
        (Some m, errors) \<Rightarrow> (Some (calculatePositions m), errors)
      | (None, errors) \<Rightarrow> (None, errors))"

definition gs_pipeline :: "string \<Rightarrow> WardleyMap option \<times> ParseError list" where
  "gs_pipeline source =
     (case gs_parseWardleyMap source of
        (Some m, errors) \<Rightarrow> (Some (gs_calculatePositions m), errors)
      | (None, errors) \<Rightarrow> (None, errors))"

definition nl :: string where
  "nl = [CHR 0x0A]"

section \<open>Example inputs\<close>

definition text_seven :: string where
  "text_seven =
     ''component a [genesis]'' @ nl @ ''component b [genesis]'' @ nl @
     ''component c [genesis]'' @ nl @ ''component d [genesis]'' @ nl @
     ''component e [genesis]'' @ nl @ ''component f [genesis]'' @ nl @
     ''component g [genesis]''"

definition text_anchor_target :: string where
  "text_anchor_target =
     ''component S [custom]'' @ nl @ ''anchor T [product]'' @ nl @
     ''component U [genesis]'' @ nl @ ''U -> S'' @ nl @ ''evolve S -> T [product]''"

definition text_evolve_chain :: string where
  "text_evolve_chain =
     ''component A [genesis]'' @ nl @ ''component B [custom]'' @ nl @
     ''component C [product]'' @ nl @ ''component D [commodity]'' @ nl @
     ''A -> D'' @ nl @ ''evolve B -> C [product]'' @ nl @ ''evolve A -> B [custom]''"

definition text_labelled_chain :: string where
  "text_labelled_chain =
     ''component A [genesis]'' @ nl @ ''component B [custom]'' @ nl @
     ''component C [product]'' @ nl @ ''A -> B;uses -> C''"

definition text_pair :: string where
  "text_pair = ''component A [genesis]'' @ nl @ ''component B [genesis]''"

definition mk_component :: "string \<Rightarrow> EvolutionStage \<Rightarrow> bool \<Rightarrow> Component" where
  "mk_component n s a = \<lparr>c_name = n, c_stage = s, c_isAnchor = a, c_x = None, c_y = None\<rparr>"

definition mk_dependency :: "string \<Rightarrow> string \<Rightarrow> Dependency" where
  "mk_dependency a b = \<lparr>d_from = a, d_to = b, d_label = None\<rparr>"

text \<open>\<open>A\<close> depends on \<open>C\<close> directly and through \<open>B\<close>: two candidate layers for \<open>A\<close>.\<close>

definition ex_comps :: "Component list" where
  "ex_comps = [mk_component ''A'' Genesis False, mk_component ''B'' Custom False,
               mk_component ''C'' Commodity False]"

definition ex_deps :: "Dependency list" where
  "ex_deps = [mk_dependency ''A'' ''C'', mk_dependency ''A'' ''B'', mk_dependency ''B'' ''C'']"





text \<open>A map that the parser does not return: \<open>C\<close> is declared twice.\<close>

definition twice_map :: WardleyMap where
  "twice_map =
     \<lparr>m_title = None,
      m_components = [mk_component ''C'' Commodity False, mk_component ''C'' Commodity False,
                      mk_component ''N'' Genesis False, mk_component ''D'' Custom False],
      m_dependencies = [mk_dependency ''N'' ''C'', mk_dependency ''N'' ''D'',
                        mk_dependency ''D'' ''N''],
      m_evolutions = [], m_annotations = [], m_notes = []\<rparr>"

definition pair_map :: WardleyMap where
  "pair_map =
     \<lparr>m_title = None,
      m_components = [mk_component ''A'' Genesis False, mk_component ''B'' Genesis False],
      m_dependencies = [], m_evolutions = [], m_annotations = [], m_notes = []\<rparr>"

definition text_evolve_first :: string where
  "text_evolve_first =
     ''evolve A -> B [product]'' @ nl @ ''component A [genesis]'' @ nl @ ''component B [custom]''"

definition text_chain_first :: string where
  "text_chain_first =
     ''A -> B'' @ nl @ ''component A [genesis]'' @ nl @ ''component B [custom]''"


section \<open>Notions used by the properties\<close>

text \<open>
  A graph is valid when the names of its components are distinct and every dependency
  joins declared components; this is what the parser checks before it returns a map.
  \<open>edge_rel\<close> is the dependency relation, \<open>from\<close> first.
\<close>

definition valid_graph :: "Component list \<Rightarrow> Dependency list \<Rightarrow> bool" where
  "valid_graph comps deps =
     (distinct (map c_name comps)
      \<and> (\<forall>d \<in> set deps. d_from d \<in> c_name ` set comps \<and> d_to d \<in> c_name ` set comps))"

definition edge_rel :: "Dependency list \<Rightarrow> (string \<times> string) set" where
  "edge_rel deps = (\<lambda>d. (d_from d, d_to d)) ` set deps"

text \<open>The dependencies leaving a name, and the names that depend on a name, in order.\<close>

definition out_degree :: "Dependency list \<Rightarrow> string \<Rightarrow> nat" where
  "out_degree deps n = length (filter (\<lambda>d. d_from d = n) deps)"

definition dependents :: "Dependency list \<Rightarrow> string \<Rightarrow> string list" where
  "dependents deps n = map d_from (filter (\<lambda>d. d_to d = n) deps)"

text \<open>
  For the loop of \<open>topologicalSort\<close>: the names already taken from the queue, the
  dependencies of a name on names not yet taken, and the invariant of the loop.
\<close>

definition pending :: "Dependency list \<Rightarrow> string set \<Rightarrow> string \<Rightarrow> nat" where
  "pending deps S n = length (filter (\<lambda>d. d_from d = n \<and> d_to d \<notin> S) deps)"

definition done_set :: "Component list \<Rightarrow> topo \<Rightarrow> string set" where
  "done_set comps t =
     {n \<in> c_name ` set comps. degree_or0 (inDegree t) n = 0} - set (queue t)"

definition bfs_inv :: "Component list \<Rightarrow> Dependency list \<Rightarrow> topo \<Rightarrow> bool" where
  "bfs_inv comps deps t =
     ((\<forall>n. neighbors_of (graph t) n = (if n \<in> c_name ` set comps then dependents deps n else []))
      \<and> distinct (queue t)
      \<and> set (queue t) \<subseteq> {n \<in> c_name ` set comps. degree_or0 (inDegree t) n = 0}
      \<and> (\<forall>n. degree_or0 (inDegree t) n = int (pending deps (done_set comps t) n))
      \<and> (\<forall>d \<in> set deps. d_to d \<in> done_set comps t \<longrightarrow>
            (\<exists>lf lt. map_of (layers t) (d_from d) = Some lf
               \<and> map_of (layers t) (d_to d) = Some lt \<and> lt < lf))
      \<and> (\<forall>n l. map_of (layers t) n = Some l \<longrightarrow>
            l = 0 \<or> (\<exists>d \<in> set deps. d_from d = n \<and> d_to d \<in> done_set comps t
                       \<and> map_of (layers t) (d_to d) = Some (l - 1) \<and> 0 < l))
      \<and> (\<forall>n \<in> set (queue t) \<union> done_set comps t. map_of (layers t) n \<noteq> None))"

text \<open>
  What the layout may not depend on: a component without its coordinates. Two maps have
  the same declared content when they differ at most in stored coordinates.
\<close>

definition erase_x :: "Component \<Rightarrow> Component" where
  "erase_x c = c\<lparr>c_x := None\<rparr>"

definition erase_y :: "Component \<Rightarrow> Component" where
  "erase_y c = c\<lparr>c_y := None\<rparr>"

definition erase_xy :: "Component \<Rightarrow> Component" where
  "erase_xy c = c\<lparr>c_x := None, c_y := None\<rparr>"

definition same_declared :: "WardleyMap \<Rightarrow> WardleyMap \<Rightarrow> bool" where
  "same_declared m' m =
     (map erase_xy (m_components m') = map erase_xy (m_components m)
      \<and> m'\<lparr>m_components := []\<rparr> = m\<lparr>m_components := []\<rparr>)"

text \<open>The first loop of \<open>calculatePositions\<close>, for one component.\<close>

definition set_x :: "Component \<Rightarrow> Component" where
  "set_x c = c\<lparr>c_x := Some (STAGE_POSITIONS (c_stage c))\<rparr>"

text \<open>
  The layers that \<open>calculatePositions\<close> reads (the first loop, which sets the x, changes
  no name, and \<open>topologicalSort\<close> reads only names). A name is trapped when its
  in-degree is not 0 when the queue loop has ended: in a valid graph the in-degree of a
  name counts its dependencies on names not yet taken from the queue, and a name enters
  the queue at the moment its in-degree becomes 0, so a trapped name is one that never
  entered the queue.
\<close>

definition layers_of :: "WardleyMap \<Rightarrow> (string \<times> nat) list" where
  "layers_of m = topologicalSort (m_components m) (m_dependencies m)"

definition trapped :: "Component list \<Rightarrow> Dependency list \<Rightarrow> string \<Rightarrow> bool" where
  "trapped comps deps n = (degree_or0 (inDegree (bfs (topo_start comps deps))) n \<noteq> 0)"

text \<open>
  For the parser: a line that reaches the dependency branch (it contains \<open>->\<close> and no
  earlier form matches it); the loop over the lines from a given line number; the errors
  the last pass reports for one dependency; and the two moments at which a name can be
  looked up, after the lines before a line and after the whole text.
\<close>

definition is_chain_line :: "string \<Rightarrow> bool" where
  "is_chain_line raw =
     (let line = trim raw
      in line \<noteq> [] \<and> \<not> startsWith line ''#'' \<and> \<not> startsWith line ''title ''
         \<and> componentMatch line = None \<and> anchorMatch line = None
         \<and> evolveMatch line = None \<and> evolveStageMatch line = None
         \<and> includes_arrow line)"

definition run_lines :: "nat \<Rightarrow> string list \<Rightarrow> pstate \<Rightarrow> pstate" where
  "run_lines k ls st = fold (\<lambda>il. process_line (fst il) (snd il)) (enumerate k ls) st"

definition missing_refs :: "(string \<times> Component) list \<Rightarrow> Dependency \<Rightarrow> ParseError list" where
  "missing_refs cm dep =
     (if \<not> has cm (d_from dep) then [\<lparr>err_line = 0, err_message = msg_referenced (d_from dep)\<rparr>] else [])
     @ (if \<not> has cm (d_to dep) then [\<lparr>err_line = 0, err_message = msg_referenced (d_to dep)\<rparr>] else [])"

definition declared_before :: "string list \<Rightarrow> string \<Rightarrow> bool" where
  "declared_before pre n = has (ps_componentMap (parse_lines pre pstate_empty)) n"

definition declared_in :: "string \<Rightarrow> string \<Rightarrow> bool" where
  "declared_in source n = has (ps_componentMap (parse_state source)) n"

text \<open>
  The component table and the component list of the parser agree, and no name is listed
  twice.
\<close>

definition table_ok :: "pstate \<Rightarrow> bool" where
  "table_ok st =
     ((\<forall>n. has (ps_componentMap st) n \<longleftrightarrow> n \<in> c_name ` set (m_components (ps_map st)))
      \<and> distinct (map c_name (m_components (ps_map st))))"

text \<open>A component whose y is defined and lies in \<open>[0, 1)\<close>.\<close>

definition unit_y :: "Component \<Rightarrow> bool" where
  "unit_y c = (case c_y c of None \<Rightarrow> False | Some v \<Rightarrow> 0 \<le> v \<and> v < 1)"

section \<open>Properties\<close>

subsection \<open>The parser returns a map exactly when it found no error\<close>

text \<open>
  Claim C1. For every input text, \<open>parseWardleyMap\<close> returns \<open>null\<close> for the map if and
  only if the error list is not empty; with an empty error list the map is there.
\<close>

theorem parse_null_iff_errors:
  "(fst (parseWardleyMap source) = None) = (snd (parseWardleyMap source) \<noteq> [])"
  by (simp add: parseWardleyMap_def Let_def)

subsection \<open>Wide overlap groups leave the unit square\<close>

text \<open>
  Claim C2 asks for every position to lie in the unit square. Seven components of stage
  genesis with no dependency share one overlap group; its spread is \<open>0.12 \<times> 7 / 3 = 0.28\<close>,
  wider than twice the distance \<open>0.125\<close> of the stage centre from the border, and the first
  component is placed at \<open>x = -0.015\<close>.
\<close>

theorem seven_genesis_positions:
  "map_option placed (fst (pipeline text_seven)) =
     Some [(''a'', Some (- (3 / 200)), Some 0), (''b'', Some (19 / 600), Some 0),
           (''c'', Some (47 / 600), Some 0), (''d'', Some (1 / 8), Some 0),
           (''e'', Some (103 / 600), Some 0), (''f'', Some (131 / 600), Some 0),
           (''g'', Some (53 / 200), Some 0)]"
  by code_simp

subsection \<open>An evolution edge into an anchor moves the anchor\<close>

text \<open>
  Claim C4 asks for \<open>y = 0\<close> of every anchor, whatever evolution edges target it. The
  evolution loop runs after the anchor pin and has no test for anchors: the anchor \<open>T\<close>,
  target of an evolution from \<open>S\<close> (layer 0 of 2, \<open>y = 1/2\<close>), ends at \<open>y = 1/2\<close>.
\<close>

theorem anchor_target_positions:
  "map_option (\<lambda>m. map (\<lambda>c. (c_name c, c_isAnchor c, c_y c)) (m_components m))
       (fst (pipeline text_anchor_target)) =
     Some [(''S'', False, Some (1 / 2)), (''T'', True, Some (1 / 2)), (''U'', False, Some 0)]"
  by code_simp

subsection \<open>Evolution edges are applied once, in the order of their lines\<close>

text \<open>
  Claim C5 asks for \<open>y(to) = y(from)\<close> on every evolution edge, chains in any order
  included. With \<open>evolve B -> C\<close> written before \<open>evolve A -> B\<close>, \<open>C\<close> takes the y that
  \<open>B\<close> has before \<open>B\<close> is moved to the y of \<open>A\<close>: in the result \<open>y(B) = 0\<close> and
  \<open>y(C) = 1/2\<close>.
\<close>

theorem evolve_chain_positions:
  "map_option (\<lambda>m. (map (\<lambda>e. (e_from e, e_to e)) (m_evolutions m),
                     map (\<lambda>c. (c_name c, c_y c)) (m_components m)))
       (fst (pipeline text_evolve_chain)) =
     Some ([(''B'', ''C''), (''A'', ''B'')],
           [(''A'', Some 0), (''B'', Some 0), (''C'', Some (1 / 2)), (''D'', Some (1 / 2))])"
  by code_simp

subsection \<open>A label in the middle of a chain stays in the next source\<close>

text \<open>
  Claim C8 asks that no edge endpoint keeps a \<open>;label\<close> suffix. The source of an edge is
  cleaned only in the first round of the loop, so in \<open>A -> B;uses -> C\<close> the second edge
  starts at \<open>B;uses\<close>, and the pass over the dependencies rejects the text.
\<close>

theorem labelled_chain_edges:
  "parseDependencyChain ''A -> B;uses -> C'' [] =
     [\<lparr>d_from = ''A'', d_to = ''B'', d_label = Some ''uses''\<rparr>,
      \<lparr>d_from = ''B;uses'', d_to = ''C'', d_label = None\<rparr>]
   \<and> parseWardleyMap text_labelled_chain =
     (None, [\<lparr>err_line = 0, err_message = msg_referenced ''B;uses''\<rparr>])"
  by code_simp

subsection \<open>The standalone generator has drifted from the plugin\<close>

text \<open>
  Claim C9 asks that both pipelines decide errors alike and place components alike. They
  spread two overlapping components over \<open>0.12\<close> and over \<open>0.08\<close>, and only the plugin's
  parser rejects a line of unknown syntax.
\<close>

theorem pipelines_differ:
  "map_option placed (fst (pipeline text_pair)) =
     Some [(''A'', Some (13 / 200), Some 0), (''B'', Some (37 / 200), Some 0)]
   \<and> map_option placed (fst (gs_pipeline text_pair)) =
     Some [(''A'', Some (17 / 200), Some 0), (''B'', Some (33 / 200), Some 0)]
   \<and> snd (pipeline ''bogus'') = [\<lparr>err_line = 1, err_message = msg_unknown ''bogus''\<rparr>]
   \<and> snd (gs_pipeline ''bogus'') = []"
  by code_simp

subsection \<open>Layers of an acyclic graph\<close>

text \<open>The state before the queue loop, in terms of the dependency list.\<close>

lemma fold_init_step:
  "map_of (inDegree (fold init_step cs t)) n =
     (if n \<in> c_name ` set cs then Some 0 else map_of (inDegree t) n)
   \<and> map_of (graph (fold init_step cs t)) n =
     (if n \<in> c_name ` set cs then Some [] else map_of (graph t) n)
   \<and> layers (fold init_step cs t) = layers t
   \<and> queue (fold init_step cs t) = queue t"
  by (induction cs arbitrary: t rule: rev_induct) (auto simp: init_step_def update_conv')

lemma edge_step_simps:
  "map_of (inDegree (edge_step d t)) n =
     (if n = d_from d then Some (degree_or0 (inDegree t) n + 1) else map_of (inDegree t) n)"
  "map_of (graph (edge_step d t)) n =
     (if n = d_to d then map_option (\<lambda>l. l @ [d_from d]) (map_of (graph t) n)
      else map_of (graph t) n)"
  "layers (edge_step d t) = layers t"
  "queue (edge_step d t) = queue t"
  by (auto simp: edge_step_def update_conv' split: option.splits)

lemma fold_edge_step:
  "map_of (inDegree (fold edge_step ds t)) n =
     (if out_degree ds n = 0 then map_of (inDegree t) n
      else Some (degree_or0 (inDegree t) n + int (out_degree ds n)))
   \<and> map_of (graph (fold edge_step ds t)) n =
     map_option (\<lambda>l. l @ dependents ds n) (map_of (graph t) n)
   \<and> layers (fold edge_step ds t) = layers t
   \<and> queue (fold edge_step ds t) = queue t"
proof (induction ds rule: rev_induct)
  case Nil
  show ?case by (simp add: out_degree_def dependents_def option.map_ident)
next
  case (snoc d ds)
  then show ?case
    by (auto simp: edge_step_simps out_degree_def dependents_def degree_or0_def
        option.map_comp comp_def split: option.splits)
qed

lemma fold_seed_step:
  "inDegree (fold seed_step cs t) = inDegree t
   \<and> graph (fold seed_step cs t) = graph t
   \<and> queue (fold seed_step cs t) =
       queue t @ map c_name (filter (\<lambda>c. map_of (inDegree t) (c_name c) = Some 0) cs)
   \<and> map_of (layers (fold seed_step cs t)) n =
       (if n \<in> c_name ` {c \<in> set cs. map_of (inDegree t) (c_name c) = Some 0} then Some 0
        else map_of (layers t) n)"
  by (induction cs arbitrary: t rule: rev_induct) (auto simp: seed_step_def update_conv')

lemma topo_start_degree:
  "degree_or0 (inDegree (topo_start comps deps)) n = int (out_degree deps n)"
  by (simp add: topo_start_def fold_seed_step fold_edge_step fold_init_step degree_or0_def
      topo_empty_def)

lemma topo_start_graph:
  "neighbors_of (graph (topo_start comps deps)) n =
     (if n \<in> c_name ` set comps then dependents deps n else [])"
  by (simp add: topo_start_def fold_seed_step fold_edge_step fold_init_step neighbors_of_def
      topo_empty_def)

lemma topo_start_queue:
  "queue (topo_start comps deps) =
     filter (\<lambda>n. out_degree deps n = 0) (map c_name comps)"
  by (simp add: topo_start_def fold_seed_step fold_edge_step fold_init_step topo_empty_def
      filter_map comp_def degree_or0_def cong: filter_cong)

lemma topo_start_layers:
  "map_of (layers (topo_start comps deps)) n =
     (if n \<in> c_name ` set comps \<and> out_degree deps n = 0 then Some 0 else None)"
  by (auto simp: topo_start_def fold_seed_step fold_edge_step fold_init_step topo_empty_def
      degree_or0_def)

lemma relax_simps:
  "degree_or0 (inDegree (relax L a t)) n = degree_or0 (inDegree t) n - (if n = a then 1 else 0)"
  "map_of (layers (relax L a t)) n =
     (if n = a then Some (max (layer_or0 (layers t) a) (L + 1)) else map_of (layers t) n)"
  "graph (relax L a t) = graph t"
  "queue (relax L a t) = queue t @ (if degree_or0 (inDegree t) a = 1 then [a] else [])"
  by (auto simp: relax_def Let_def degree_or0_def update_conv')

lemma fold_relax_degree:
  "degree_or0 (inDegree (fold (relax L) ns t)) n =
     degree_or0 (inDegree t) n - int (count_list ns n)"
  by (induction ns arbitrary: t) (auto simp: relax_simps)

lemma fold_relax_graph: "graph (fold (relax L) ns t) = graph t"
  by (induction ns arbitrary: t) (auto simp: relax_simps)

lemma fold_relax_layers:
  "map_of (layers (fold (relax L) ns t)) n =
     (if n \<in> set ns then Some (max (layer_or0 (layers t) n) (L + 1)) else map_of (layers t) n)"
  by (induction ns arbitrary: t) (auto simp: relax_simps layer_or0_def)

lemma fold_relax_queue:
  "\<forall>n \<in> set ns. int (count_list ns n) \<le> degree_or0 (inDegree t) n \<Longrightarrow>
   \<exists>enq. queue (fold (relax L) ns t) = queue t @ enq \<and> distinct enq
     \<and> set enq = {n \<in> set ns. degree_or0 (inDegree t) n = int (count_list ns n)}"
proof (induction ns arbitrary: t)
  case Nil
  show ?case by simp
next
  case (Cons a ns)
  define deg where "deg = degree_or0 (inDegree t)"
  define deg1 where "deg1 = degree_or0 (inDegree (relax L a t))"
  have deg1: "deg1 n = deg n - (if n = a then 1 else 0)" for n
    by (simp add: deg1_def deg_def relax_simps)
  have prems: "int (count_list (a # ns) n) \<le> deg n" if "n \<in> set (a # ns)" for n
    using Cons.prems that unfolding deg_def by blast
  have pre: "\<forall>n \<in> set ns. int (count_list ns n) \<le> degree_or0 (inDegree (relax L a t)) n"
  proof
    fix n assume n: "n \<in> set ns"
    then have "int (count_list (a # ns) n) \<le> deg n" using prems by simp
    then show "int (count_list ns n) \<le> degree_or0 (inDegree (relax L a t)) n"
      using deg1 [of n] by (simp add: deg1_def split: if_splits)
  qed
  from Cons.IH [OF pre] obtain enq where
    q: "queue (fold (relax L) ns (relax L a t)) = queue (relax L a t) @ enq"
    and d: "distinct enq"
    and s: "set enq = {n \<in> set ns. deg1 n = int (count_list ns n)}"
    unfolding deg1_def by blast
  define front where "front = (if deg a = 1 then [a] else [])"
  have a_in: "2 \<le> deg a" if "a \<in> set ns"
  proof -
    from that have "count_list ns a \<noteq> 0" by (simp add: count_list_0_iff)
    moreover have "int (count_list (a # ns) a) \<le> deg a" using prems [of a] by simp
    ultimately show ?thesis by simp
  qed
  have a_enq: "a \<notin> set enq" if "deg a = 1"
    using that a_in s by auto
  have "queue (fold (relax L) (a # ns) t) = queue t @ (front @ enq)"
    using q by (simp add: relax_simps front_def deg_def)
  moreover have "distinct (front @ enq)"
    using d a_enq by (simp add: front_def)
  moreover have "set (front @ enq) = {n \<in> set (a # ns). deg n = int (count_list (a # ns) n)}"
  proof (rule set_eqI)
    fix n
    show "n \<in> set (front @ enq) \<longleftrightarrow>
          n \<in> {n \<in> set (a # ns). deg n = int (count_list (a # ns) n)}"
    proof (cases "n = a")
      case True
      show ?thesis
      proof (cases "a \<in> set ns")
        case True
        with a_in have "deg a \<noteq> 1" by simp
        with \<open>n = a\<close> True show ?thesis
          using s deg1 [of a] by (auto simp: front_def)
      next
        case False
        with \<open>n = a\<close> show ?thesis
          using s by (auto simp: front_def)
      qed
    next
      case False
      then show ?thesis
        using s deg1 [of n] by (auto simp: front_def)
    qed
  qed
  ultimately show ?case unfolding deg_def by blast
qed

lemma count_dependents:
  "count_list (dependents deps c) n = length (filter (\<lambda>d. d_from d = n \<and> d_to d = c) deps)"
  by (induction deps) (auto simp: dependents_def)

lemma pending_insert:
  "c \<notin> S \<Longrightarrow> pending deps S n = pending deps (insert c S) n + count_list (dependents deps c) n"
  by (induction deps) (auto simp: pending_def dependents_def)

lemma pending_empty: "pending deps {} n = out_degree deps n"
  by (simp add: pending_def out_degree_def)

lemma set_dependents: "set (dependents deps c) = d_from ` {d \<in> set deps. d_to d = c}"
  by (auto simp: dependents_def)

lemma pending_pos_edge:
  "0 < pending deps S n \<Longrightarrow> \<exists>d \<in> set deps. d_from d = n \<and> d_to d \<notin> S"
  by (auto simp: pending_def filter_empty_conv)

lemma bfs_inv_start:
  assumes "valid_graph comps deps"
  shows "bfs_inv comps deps (topo_start comps deps)"
proof -
  let ?t = "topo_start comps deps"
  have q: "queue ?t = filter (\<lambda>n. out_degree deps n = 0) (map c_name comps)"
    by (rule topo_start_queue)
  have done_empty: "done_set comps ?t = {}"
    by (auto simp: done_set_def q topo_start_degree)
  have "distinct (queue ?t)"
    using assms by (simp add: q valid_graph_def)
  moreover have "set (queue ?t) \<subseteq> {n \<in> c_name ` set comps. degree_or0 (inDegree ?t) n = 0}"
    by (auto simp: q topo_start_degree)
  moreover have "\<forall>n \<in> set (queue ?t) \<union> done_set comps ?t. map_of (layers ?t) n \<noteq> None"
    by (auto simp: q done_empty topo_start_layers)
  moreover have "\<forall>n l. map_of (layers ?t) n = Some l \<longrightarrow>
            l = 0 \<or> (\<exists>d \<in> set deps. d_from d = n \<and> d_to d \<in> done_set comps ?t
                       \<and> map_of (layers ?t) (d_to d) = Some (l - 1) \<and> 0 < l)"
    by (auto simp: topo_start_layers split: if_splits)
  ultimately show ?thesis
    unfolding bfs_inv_def
    by (simp add: topo_start_graph topo_start_degree done_empty pending_empty)
qed

lemma bfs_inv_step:
  assumes valid: "valid_graph comps deps"
    and inv: "bfs_inv comps deps t"
    and q: "queue t = c # rest"
  shows "bfs_inv comps deps
           (fold (relax (layer_or0 (layers t) c)) (neighbors_of (graph t) c) (t\<lparr>queue := rest\<rparr>))"
proof -
  define N where "N = c_name ` set comps"
  define L where "L = layer_or0 (layers t) c"
  define adj where "adj = dependents deps c"
  define t1 where "t1 = t\<lparr>queue := rest\<rparr>"
  define t' where "t' = fold (relax L) adj t1"
  define deg where "deg = degree_or0 (inDegree t)"
  define deg' where "deg' = degree_or0 (inDegree t')"
  define lay where "lay = map_of (layers t)"
  define lay' where "lay' = map_of (layers t')"
  define D where "D = done_set comps t"
  define D' where "D' = done_set comps t'"
  define k where "k = count_list adj"

  from inv have i_graph:
      "\<And>n. neighbors_of (graph t) n = (if n \<in> N then dependents deps n else [])"
    and i_dist: "distinct (queue t)"
    and i_queue: "set (queue t) \<subseteq> {n \<in> N. deg n = 0}"
    and i_deg: "\<And>n. deg n = int (pending deps D n)"
    and i_above: "\<And>d. d \<in> set deps \<Longrightarrow> d_to d \<in> D \<Longrightarrow>
        \<exists>lf lt. lay (d_from d) = Some lf \<and> lay (d_to d) = Some lt \<and> lt < lf"
    and i_att: "\<And>n l. lay n = Some l \<Longrightarrow>
        l = 0 \<or> (\<exists>d \<in> set deps. d_from d = n \<and> d_to d \<in> D
                    \<and> lay (d_to d) = Some (l - 1) \<and> 0 < l)"
    and i_def: "\<And>n. n \<in> set (queue t) \<union> D \<Longrightarrow> lay n \<noteq> None"
    unfolding bfs_inv_def N_def deg_def lay_def D_def by blast+

  have cN: "c \<in> N" and degc: "deg c = 0" using i_queue q by auto
  have c_rest: "c \<notin> set rest" and d_rest: "distinct rest" using i_dist q by auto
  have cD: "c \<notin> D" using q by (simp add: D_def done_set_def)
  have adj_eq: "neighbors_of (graph t) c = adj" using i_graph [of c] cN by (simp add: adj_def)
  have t'_eq: "fold (relax (layer_or0 (layers t) c)) (neighbors_of (graph t) c) (t\<lparr>queue := rest\<rparr>) = t'"
    by (simp add: t'_def t1_def L_def adj_eq)

  have k_le: "int (k n) \<le> deg n" for n
    using pending_insert [OF cD, of deps n] i_deg [of n] by (simp add: k_def adj_def)
  have k0: "k n = 0" if "deg n = 0" for n
    using k_le [of n] that by simp
  have in_adj: "n \<in> set adj \<longleftrightarrow> k n \<noteq> 0" for n
    by (simp add: k_def count_list_0_iff)
  have c_adj: "c \<notin> set adj" using k0 [OF degc] in_adj by simp
  have adjN: "set adj \<subseteq> N"
    using valid by (auto simp: adj_def set_dependents valid_graph_def N_def)

  have deg'_eq: "deg' n = deg n - int (k n)" for n
    by (simp add: deg'_def t'_def fold_relax_degree t1_def deg_def k_def)
  have lay'_eq: "lay' n = (if n \<in> set adj then Some (max (layer_or0 (layers t) n) (L + 1)) else lay n)" for n
    by (simp add: lay'_def t'_def fold_relax_layers t1_def lay_def)
  have graph': "graph t' = graph t"
    by (simp add: t'_def fold_relax_graph t1_def)
  have "\<forall>n \<in> set adj. int (count_list adj n) \<le> degree_or0 (inDegree t1) n"
    using k_le by (simp add: t1_def deg_def k_def)
  from fold_relax_queue [OF this, of L] obtain enq where
    q': "queue t' = rest @ enq" and d_enq: "distinct enq"
    and s_enq: "set enq = {n \<in> set adj. deg n = int (k n)}"
    by (auto simp: t'_def t1_def deg_def k_def)

  have enq_adj: "set enq \<subseteq> set adj" using s_enq by auto
  have rest_deg: "deg n = 0" if "n \<in> set rest" for n
    using i_queue q that by auto
  have rest_adj: "n \<notin> set adj" if "n \<in> set rest" for n
    using k0 [OF rest_deg [OF that]] in_adj by simp

  have D'_eq: "D' = insert c D"
  proof (rule set_eqI)
    fix n
    show "n \<in> D' \<longleftrightarrow> n \<in> insert c D"
    proof (cases "n = c")
      case True
      have "deg' c = 0" using deg'_eq [of c] degc k0 [OF degc] by simp
      then have "c \<in> D'"
        using cN c_rest c_adj enq_adj
        by (auto simp: D'_def done_set_def q' deg'_def N_def)
      with True show ?thesis by simp
    next
      case False
      show ?thesis
      proof
        assume "n \<in> D'"
        then have nN: "n \<in> N" and d0: "deg' n = 0" and nr: "n \<notin> set rest" and ne: "n \<notin> set enq"
          by (auto simp: D'_def done_set_def q' deg'_def N_def)
        from d0 have "deg n = int (k n)" using deg'_eq [of n] by simp
        with ne s_enq have "n \<notin> set adj" by simp
        then have "k n = 0" using in_adj by simp
        then have "deg n = 0" using \<open>deg n = int (k n)\<close> by simp
        then have "n \<in> D" using nN nr False q
          by (simp add: D_def done_set_def deg_def N_def)
        then show "n \<in> insert c D" by simp
      next
        assume "n \<in> insert c D"
        with False have nD: "n \<in> D" by simp
        then have nN: "n \<in> N" and d0: "deg n = 0" and nq: "n \<notin> set (queue t)"
          by (auto simp: D_def done_set_def deg_def N_def)
        have "k n = 0" using k0 [OF d0] .
        then have na: "n \<notin> set adj" using in_adj by simp
        have "deg' n = 0" using deg'_eq [of n] d0 \<open>k n = 0\<close> by simp
        moreover have "n \<notin> set rest" using nq q by simp
        moreover have "n \<notin> set enq" using na enq_adj by auto
        ultimately show "n \<in> D'"
          using nN by (simp add: D'_def done_set_def q' deg'_def N_def)
      qed
    qed
  qed

  have D_adj: "n \<notin> set adj" if "n \<in> insert c D" for n
  proof (cases "n = c")
    case True then show ?thesis using c_adj by simp
  next
    case False
    with that have "n \<in> D" by simp
    then have "deg n = 0" by (simp add: D_def done_set_def deg_def)
    then show ?thesis using k0 in_adj by simp
  qed
  have lay_keep: "lay' n = lay n" if "n \<notin> set adj" for n
    using lay'_eq [of n] that by simp
  have lay_c: "lay c = Some L"
  proof -
    have "lay c \<noteq> None" using i_def [of c] q by simp
    then show ?thesis by (auto simp: L_def layer_or0_def lay_def)
  qed

  have g1: "\<forall>n. neighbors_of (graph t') n = (if n \<in> c_name ` set comps then dependents deps n else [])"
    using i_graph graph' by (simp add: N_def)
  have g2: "distinct (queue t')"
    using d_rest d_enq rest_adj enq_adj by (auto simp: q')
  have g3: "set (queue t') \<subseteq> {n \<in> c_name ` set comps. degree_or0 (inDegree t') n = 0}"
  proof
    fix n assume "n \<in> set (queue t')"
    then consider "n \<in> set rest" | "n \<in> set enq" by (auto simp: q')
    then show "n \<in> {n \<in> c_name ` set comps. degree_or0 (inDegree t') n = 0}"
    proof cases
      case 1
      then have "n \<in> N" "deg n = 0" using i_queue q by auto
      then show ?thesis using deg'_eq [of n] k0 [of n] by (simp add: deg'_def N_def)
    next
      case 2
      then have "n \<in> N" "deg n = int (k n)" using s_enq adjN by auto
      then show ?thesis using deg'_eq [of n] by (simp add: deg'_def N_def)
    qed
  qed
  have g4: "\<forall>n. degree_or0 (inDegree t') n = int (pending deps (done_set comps t') n)"
  proof
    fix n
    have "deg' n = deg n - int (k n)" by (rule deg'_eq)
    also have "\<dots> = int (pending deps (insert c D) n)"
      using pending_insert [OF cD, of deps n] i_deg [of n] by (simp add: k_def adj_def)
    finally show "degree_or0 (inDegree t') n = int (pending deps (done_set comps t') n)"
      using D'_eq by (simp add: deg'_def D'_def)
  qed
  have g5: "\<forall>d \<in> set deps. d_to d \<in> done_set comps t' \<longrightarrow>
            (\<exists>lf lt. map_of (layers t') (d_from d) = Some lf
               \<and> map_of (layers t') (d_to d) = Some lt \<and> lt < lf)"
  proof (intro ballI impI)
    fix d assume d: "d \<in> set deps" and "d_to d \<in> done_set comps t'"
    then have to: "d_to d \<in> insert c D" using D'_eq by (simp add: D'_def)
    have keep: "lay' (d_to d) = lay (d_to d)" using lay_keep D_adj [OF to] by simp
    show "\<exists>lf lt. map_of (layers t') (d_from d) = Some lf
               \<and> map_of (layers t') (d_to d) = Some lt \<and> lt < lf"
    proof (cases "d_to d = c")
      case True
      then have "d_from d \<in> set adj" using d by (auto simp: adj_def set_dependents)
      then have "lay' (d_from d) = Some (max (layer_or0 (layers t) (d_from d)) (L + 1))"
        using lay'_eq by simp
      moreover have "lay' (d_to d) = Some L" using keep True lay_c by simp
      ultimately show ?thesis by (simp add: lay'_def)
    next
      case False
      with to have "d_to d \<in> D" by simp
      from i_above [OF d this] obtain lf lt where
        l: "lay (d_from d) = Some lf" "lay (d_to d) = Some lt" "lt < lf" by blast
      have "lay' (d_from d) = Some lf \<or> lay' (d_from d) = Some (max lf (L + 1))"
        using lay'_eq [of "d_from d"] l by (auto simp: layer_or0_def lay_def)
      then show ?thesis using keep l by (auto simp: lay'_def)
    qed
  qed
  have g6: "\<forall>n l. map_of (layers t') n = Some l \<longrightarrow>
            l = 0 \<or> (\<exists>d \<in> set deps. d_from d = n \<and> d_to d \<in> done_set comps t'
                       \<and> map_of (layers t') (d_to d) = Some (l - 1) \<and> 0 < l)"
  proof (intro allI impI)
    fix n l assume "map_of (layers t') n = Some l"
    then have ln: "lay' n = Some l" by (simp add: lay'_def)
    have old: "\<exists>d \<in> set deps. d_from d = n \<and> d_to d \<in> D'
                       \<and> lay' (d_to d) = Some (l - 1) \<and> 0 < l"
      if "lay n = Some l" "l \<noteq> 0"
    proof -
      from i_att [OF that(1)] that(2) obtain d where
        d: "d \<in> set deps" "d_from d = n" "d_to d \<in> D" "lay (d_to d) = Some (l - 1)" "0 < l"
        by blast
      have "lay' (d_to d) = lay (d_to d)" using lay_keep D_adj d(3) by simp
      with d D'_eq show ?thesis by auto
    qed
    have new: "\<exists>d \<in> set deps. d_from d = n \<and> d_to d \<in> D'
                       \<and> lay' (d_to d) = Some (l - 1) \<and> 0 < l"
      if "n \<in> set adj" "l = L + 1"
    proof -
      from that(1) obtain d where d: "d \<in> set deps" "d_from d = n" "d_to d = c"
        by (auto simp: adj_def set_dependents)
      have "lay' c = Some L" using lay_keep c_adj lay_c by simp
      with d that(2) D'_eq show ?thesis by auto
    qed
    have "l = 0 \<or> (\<exists>d \<in> set deps. d_from d = n \<and> d_to d \<in> D'
                       \<and> lay' (d_to d) = Some (l - 1) \<and> 0 < l)"
    proof (cases "n \<in> set adj")
      case False
      then have "lay n = Some l" using ln lay_keep by simp
      then show ?thesis using old by blast
    next
      case True
      then have l_eq: "l = max (layer_or0 (layers t) n) (L + 1)" using ln lay'_eq [of n] by simp
      show ?thesis
      proof (cases "layer_or0 (layers t) n \<le> L + 1")
        case True
        then have "l = L + 1" using l_eq by simp
        then show ?thesis using new \<open>n \<in> set adj\<close> by blast
      next
        case False
        then have "l = layer_or0 (layers t) n" "l \<noteq> 0" using l_eq by simp_all
        then have "lay n = Some l" by (auto simp: layer_or0_def lay_def split: option.splits)
        then show ?thesis using old \<open>l \<noteq> 0\<close> by blast
      qed
    qed
    then show "l = 0 \<or> (\<exists>d \<in> set deps. d_from d = n \<and> d_to d \<in> done_set comps t'
                       \<and> map_of (layers t') (d_to d) = Some (l - 1) \<and> 0 < l)"
      by (simp add: D'_def lay'_def)
  qed
  have g7: "\<forall>n \<in> set (queue t') \<union> done_set comps t'. map_of (layers t') n \<noteq> None"
  proof
    fix n assume "n \<in> set (queue t') \<union> done_set comps t'"
    then consider "n \<in> set rest" | "n \<in> set enq" | "n \<in> insert c D"
      using D'_eq by (auto simp: q' D'_def)
    then have "lay' n \<noteq> None"
    proof cases
      case 1
      then have "lay' n = lay n" using lay_keep rest_adj by simp
      moreover have "lay n \<noteq> None" using i_def [of n] 1 q by simp
      ultimately show ?thesis by simp
    next
      case 2
      then show ?thesis using lay'_eq [of n] enq_adj by auto
    next
      case 3
      then have "lay' n = lay n" using lay_keep D_adj by simp
      moreover have "lay n \<noteq> None" using i_def [of n] 3 q by auto
      ultimately show ?thesis by simp
    qed
    then show "map_of (layers t') n \<noteq> None" by (simp add: lay'_def)
  qed
  show ?thesis
    unfolding t'_eq bfs_inv_def using g1 g2 g3 g4 g5 g6 g7 by blast
qed

lemma bfs_inv_final:
  "valid_graph comps deps \<Longrightarrow> bfs_inv comps deps t \<Longrightarrow>
     bfs_inv comps deps (bfs t) \<and> queue (bfs t) = []"
proof (induction t rule: bfs.induct)
  case (1 t)
  show ?case
  proof (cases "queue t")
    case Nil
    then show ?thesis using "1.prems" by (simp add: bfs.simps [of t])
  next
    case (Cons c rest)
    let ?t = "fold (relax (layer_or0 (layers t) c)) (neighbors_of (graph t) c) (t\<lparr>queue := rest\<rparr>)"
    have "bfs_inv comps deps ?t"
      using bfs_inv_step [OF "1.prems"(1) "1.prems"(2) Cons] .
    from "1.IH" [OF Cons "1.prems"(1) this]
    show ?thesis using Cons by (simp add: bfs.simps [of t])
  qed
qed

lemma all_done:
  assumes valid: "valid_graph comps deps"
    and acyc: "acyclic (edge_rel deps)"
    and inv: "bfs_inv comps deps t"
    and empty: "queue t = []"
  shows "done_set comps t = c_name ` set comps"
proof (rule ccontr)
  assume neq: "done_set comps t \<noteq> c_name ` set comps"
  define U where "U = c_name ` set comps - done_set comps t"
  have "done_set comps t \<subseteq> c_name ` set comps" by (auto simp: done_set_def)
  with neq obtain u where u: "u \<in> U" by (auto simp: U_def)
  have "finite (edge_rel deps)" by (simp add: edge_rel_def)
  then have "wf ((edge_rel deps)\<inverse>)" using acyc by (rule finite_acyclic_wf_converse)
  from wfE_min [OF this u] obtain z where
    z: "z \<in> U" and zmin: "\<And>y. (y, z) \<in> (edge_rel deps)\<inverse> \<Longrightarrow> y \<notin> U" by blast
  from inv have deg: "degree_or0 (inDegree t) z = int (pending deps (done_set comps t) z)"
    by (simp add: bfs_inv_def)
  from z empty have "degree_or0 (inDegree t) z \<noteq> 0"
    by (auto simp: U_def done_set_def)
  with deg have "0 < pending deps (done_set comps t) z" by simp
  from pending_pos_edge [OF this] obtain d where
    d: "d \<in> set deps" "d_from d = z" "d_to d \<notin> done_set comps t" by blast
  have "d_to d \<in> c_name ` set comps" using valid d(1) by (simp add: valid_graph_def)
  with d(3) have "d_to d \<in> U" by (simp add: U_def)
  moreover have "(d_to d, z) \<in> (edge_rel deps)\<inverse>"
    using d(1,2) by (auto simp: edge_rel_def)
  ultimately show False using zmin by blast
qed

text \<open>
  Claim C3. In a valid graph without a dependency cycle, \<open>topologicalSort\<close> gives both
  ends of every dependency a layer, and the layer of \<open>from\<close> is strictly greater than the
  layer of \<open>to\<close>. The layer of a component is 0 when it depends on nothing, and otherwise
  the greatest candidate proposed for it: the maximum of \<open>layer(to) + 1\<close> over its
  dependencies.
\<close>

theorem layers_strict:
  assumes valid: "valid_graph comps deps"
    and acyc: "acyclic (edge_rel deps)"
  shows "(\<forall>d \<in> set deps. \<exists>lf lt.
            map_of (topologicalSort comps deps) (d_from d) = Some lf
          \<and> map_of (topologicalSort comps deps) (d_to d) = Some lt \<and> lt < lf)
       \<and> (\<forall>c \<in> set comps. \<exists>l. map_of (topologicalSort comps deps) (c_name c) = Some l
          \<and> (if out_degree deps (c_name c) = 0 then l = 0
              else l = Max ((\<lambda>d. layer_or0 (topologicalSort comps deps) (d_to d) + 1)
                             ` {d \<in> set deps. d_from d = c_name c})))"
proof -
  define t where "t = bfs (topo_start comps deps)"
  define lay where "lay = map_of (topologicalSort comps deps)"
  have lay_t: "lay = map_of (layers t)" by (simp add: lay_def t_def topologicalSort_def)
  have "bfs_inv comps deps t \<and> queue t = []"
    unfolding t_def using valid bfs_inv_start [OF valid] by (rule bfs_inv_final)
  then have inv: "bfs_inv comps deps t" and empty: "queue t = []" by simp_all
  have D: "done_set comps t = c_name ` set comps"
    using valid acyc inv empty by (rule all_done)
  have above: "\<exists>lf lt. lay (d_from d) = Some lf \<and> lay (d_to d) = Some lt \<and> lt < lf"
    if "d \<in> set deps" for d
  proof -
    have "d_to d \<in> done_set comps t" using valid that D by (simp add: valid_graph_def)
    with inv that show ?thesis unfolding bfs_inv_def lay_t by blast
  qed
  have att: "l = 0 \<or> (\<exists>d \<in> set deps. d_from d = n \<and> lay (d_to d) = Some (l - 1) \<and> 0 < l)"
    if "lay n = Some l" for n l
    using inv that unfolding bfs_inv_def lay_t by blast
  have defined: "lay (c_name c) \<noteq> None" if "c \<in> set comps" for c
    using inv that D unfolding bfs_inv_def lay_t by blast
  have lor: "layer_or0 (topologicalSort comps deps) n = l" if "lay n = Some l" for n l
    using that by (simp add: layer_or0_def lay_def)
  have part2: "\<exists>l. lay (c_name c) = Some l
          \<and> (if out_degree deps (c_name c) = 0 then l = 0
              else l = Max ((\<lambda>d. layer_or0 (topologicalSort comps deps) (d_to d) + 1)
                             ` {d \<in> set deps. d_from d = c_name c}))"
    if c: "c \<in> set comps" for c
  proof -
    from defined [OF c] obtain l where l: "lay (c_name c) = Some l" by auto
    let ?E = "{d \<in> set deps. d_from d = c_name c}"
    let ?f = "\<lambda>d. layer_or0 (topologicalSort comps deps) (d_to d) + 1"
    show ?thesis
    proof (cases "out_degree deps (c_name c) = 0")
      case True
      then have "?E = {}" by (auto simp: out_degree_def filter_empty_conv)
      with att [OF l] have "l = 0" by auto
      with l True show ?thesis by simp
    next
      case False
      then obtain d0 where d0: "d0 \<in> ?E"
        by (auto simp: out_degree_def filter_empty_conv)
      have ub: "?f d \<le> l" if "d \<in> ?E" for d
      proof -
        from that above [of d] l obtain lt where "lay (d_to d) = Some lt" "lt < l" by auto
        then show ?thesis using lor by simp
      qed
      have "0 < l" using ub [OF d0] by simp
      with att [OF l] obtain d where d: "d \<in> ?E" "lay (d_to d) = Some (l - 1)" by auto
      then have "?f d = l" using lor \<open>0 < l\<close> by simp
      then have mem: "l \<in> ?f ` ?E" using d(1) by force
      have fin: "finite (?f ` ?E)" by simp
      have bound: "\<And>y. y \<in> ?f ` ?E \<Longrightarrow> y \<le> l" using ub by auto
      have "Max (?f ` ?E) = l" using fin bound mem by (rule Max_eqI)
      with l False show ?thesis by simp
    qed
  qed
  show ?thesis using above part2 unfolding lay_def by blast
qed

lemma acyclic_by_rank:
  fixes rank :: "string \<Rightarrow> nat"
  assumes "\<And>d. d \<in> set deps \<Longrightarrow> rank (d_to d) < rank (d_from d)"
  shows "acyclic (edge_rel deps)"
proof (rule acyclicI_order [where f = rank])
  fix a b assume "(a, b) \<in> edge_rel deps"
  then show "rank b < rank a" using assms by (auto simp: edge_rel_def)
qed

theorem layers_strict_witness:
  "valid_graph ex_comps ex_deps \<and> acyclic (edge_rel ex_deps)
   \<and> (\<exists>lf lt. map_of (topologicalSort ex_comps ex_deps) ''A'' = Some lf
         \<and> map_of (topologicalSort ex_comps ex_deps) ''B'' = Some lt \<and> lt < lf)"
proof -
  have v: "valid_graph ex_comps ex_deps"
    by (simp add: valid_graph_def ex_comps_def ex_deps_def mk_component_def mk_dependency_def)
  have a: "acyclic (edge_rel ex_deps)"
    by (rule acyclic_by_rank [where rank = "\<lambda>n. if n = ''A'' then 2 else if n = ''B'' then 1 else 0"])
       (auto simp: ex_deps_def mk_dependency_def)
  from layers_strict [OF v a] have
    "\<exists>lf lt. map_of (topologicalSort ex_comps ex_deps) (d_from (mk_dependency ''A'' ''B'')) = Some lf
         \<and> map_of (topologicalSort ex_comps ex_deps) (d_to (mk_dependency ''A'' ''B'')) = Some lt \<and> lt < lf"
    by (simp add: ex_deps_def)
  then show ?thesis using v a by (simp add: mk_dependency_def)
qed

subsection \<open>What the layout writes and what it reads\<close>

lemma map_update_same:
  "f v = f (cs ! i) \<Longrightarrow> map f (cs[i := v]) = map f cs"
proof (rule nth_equalityI)
  show "length (map f (cs[i := v])) = length (map f cs)" by simp
next
  fix j assume "j < length (map f (cs[i := v]))"
  then have j: "j < length cs" by simp
  assume fv: "f v = f (cs ! i)"
  show "map f (cs[i := v]) ! j = map f cs ! j"
  proof (cases "j = i")
    case True
    with j fv show ?thesis by simp
  next
    case False
    with j show ?thesis by simp
  qed
qed

lemma spread_member_erase_x:
  "map erase_x (spread_member b n ii cs) = map erase_x cs"
  by (simp add: spread_member_def map_update_same erase_x_def)

lemma fold_spread_member_erase_x:
  "map erase_x (fold (spread_member b n) iis cs) = map erase_x cs"
  by (induction iis arbitrary: cs) (simp_all add: spread_member_erase_x)

lemma spread_group_erase_x: "map erase_x (spread_group g cs) = map erase_x cs"
  by (simp add: spread_group_def fold_spread_member_erase_x)

lemma fold_spread_group_erase_x:
  "map erase_x (fold (\<lambda>kg. spread_group (snd kg)) gs cs) = map erase_x cs"
  by (induction gs arbitrary: cs) (simp_all add: spread_group_erase_x)

lemma spread_erase_x: "map erase_x (spreadOverlappingComponents cs) = map erase_x cs"
  by (simp add: spreadOverlappingComponents_def fold_spread_group_erase_x)

lemma inherit_y_erase_y: "map erase_y (inherit_y e cs) = map erase_y cs"
  by (simp add: inherit_y_def map_update_same erase_y_def split: option.splits)

lemma fold_inherit_y_erase_y: "map erase_y (fold inherit_y es cs) = map erase_y cs"
  by (induction es arbitrary: cs) (simp_all add: inherit_y_erase_y)

lemma erase_x_fields:
  "map erase_x cs = map erase_x cs' \<Longrightarrow>
     length cs = length cs' \<and> map c_name cs = map c_name cs' \<and> map c_stage cs = map c_stage cs'
     \<and> map c_isAnchor cs = map c_isAnchor cs' \<and> map c_y cs = map c_y cs'"
proof (induction cs arbitrary: cs')
  case Nil
  then show ?case by simp
next
  case (Cons c cs)
  then obtain d ds where cs': "cs' = d # ds" by (cases cs') auto
  with Cons.prems have e: "erase_x c = erase_x d" and r: "map erase_x cs = map erase_x ds" by simp_all
  from e have "c_name c = c_name d \<and> c_stage c = c_stage d \<and> c_isAnchor c = c_isAnchor d \<and> c_y c = c_y d"
    by (cases c, cases d) (simp add: erase_x_def)
  with Cons.IH [OF r] cs' show ?case by simp
qed






lemma erase_xy_x: "erase_xy c = erase_y (erase_x c)"
  by (simp add: erase_xy_def erase_x_def erase_y_def)

lemma erase_xy_y: "erase_xy c = erase_x (erase_y c)"
  by (cases c) (simp add: erase_xy_def erase_x_def erase_y_def)

lemma erase_xy_of_x: "map erase_x cs = map erase_x cs' \<Longrightarrow> map erase_xy cs = map erase_xy cs'"
proof -
  assume "map erase_x cs = map erase_x cs'"
  then have "map erase_y (map erase_x cs) = map erase_y (map erase_x cs')" by simp
  then show ?thesis by (simp add: erase_xy_x [abs_def] comp_def)
qed

lemma erase_xy_of_y: "map erase_y cs = map erase_y cs' \<Longrightarrow> map erase_xy cs = map erase_xy cs'"
proof -
  assume "map erase_y cs = map erase_y cs'"
  then have "map erase_x (map erase_y cs) = map erase_x (map erase_y cs')" by simp
  then show ?thesis by (simp add: erase_xy_y [abs_def] comp_def)
qed










lemma calculatePositions_alt:
  "m_components (calculatePositions m) =
     spreadOverlappingComponents
       (fold inherit_y (m_evolutions m)
          (map (place_y (topologicalSort (map set_x (m_components m)) (m_dependencies m)))
               (map set_x (m_components m))))"
  by (simp add: calculatePositions_def Let_def set_x_def [abs_def])


lemma positions_erase:
  "map erase_xy (m_components (calculatePositions m)) = map erase_xy (m_components m)"
proof -
  define ls where "ls = topologicalSort (map set_x (m_components m)) (m_dependencies m)"
  define cs2 where "cs2 = map (place_y ls) (map set_x (m_components m))"
  define cs3 where "cs3 = fold inherit_y (m_evolutions m) cs2"
  have r: "m_components (calculatePositions m) = spreadOverlappingComponents cs3"
    by (simp add: calculatePositions_alt cs3_def cs2_def ls_def)
  have "erase_xy (place_y ls (set_x c)) = erase_xy c" for c
    by (cases c) (simp add: erase_xy_def place_y_def place_y_at_def set_x_def Let_def)
  then have "map erase_xy cs2 = map erase_xy (m_components m)"
    by (simp add: cs2_def)
  moreover have "map erase_xy cs3 = map erase_xy cs2"
    unfolding cs3_def by (rule erase_xy_of_y) (rule fold_inherit_y_erase_y)
  moreover have "map erase_xy (spreadOverlappingComponents cs3) = map erase_xy cs3"
    by (rule erase_xy_of_x) (rule spread_erase_x)
  ultimately show ?thesis by (simp add: r)
qed

lemma erase_xy_names: "map erase_xy cs' = map erase_xy cs \<Longrightarrow> map c_name cs' = map c_name cs"
proof -
  assume "map erase_xy cs' = map erase_xy cs"
  then have "map c_name (map erase_xy cs') = map c_name (map erase_xy cs)" by (rule arg_cong)
  moreover have "c_name \<circ> erase_xy = c_name" by (simp add: fun_eq_iff erase_xy_def)
  ultimately show ?thesis by (simp only: map_map)
qed

lemma fold_by_name:
  assumes "\<And>c c'. c_name c = c_name c' \<Longrightarrow> f c = f c'"
  shows "map c_name xs = map c_name ys \<Longrightarrow> fold f xs t = fold f ys t"
proof (induction xs arbitrary: ys t)
  case Nil
  then show ?case by simp
next
  case (Cons x xs)
  then obtain y ys' where ys: "ys = y # ys'" by (cases ys) auto
  with Cons.prems have n: "c_name x = c_name y" and r: "map c_name xs = map c_name ys'"
    by simp_all
  have "f x = f y" using n by (rule assms)
  with Cons.IH [OF r] ys show ?case by simp
qed

lemma init_step_name: "c_name c = c_name c' \<Longrightarrow> init_step c = init_step c'"
  by (rule ext) (simp add: init_step_def)

lemma seed_step_name: "c_name c = c_name c' \<Longrightarrow> seed_step c = seed_step c'"
  by (rule ext) (simp add: seed_step_def)

lemma topo_start_names:
  assumes "map c_name cs' = map c_name cs"
  shows "topo_start cs' deps = topo_start cs deps"
proof -
  have i: "fold init_step cs' t = fold init_step cs t" for t
    using init_step_name assms by (rule fold_by_name)
  have s: "fold seed_step cs' t = fold seed_step cs t" for t
    using seed_step_name assms by (rule fold_by_name)
  show ?thesis by (simp only: topo_start_def i s)
qed

lemma topologicalSort_names:
  "map c_name cs' = map c_name cs \<Longrightarrow> topologicalSort cs' deps = topologicalSort cs deps"
  using topo_start_names [of cs' cs deps] by (simp add: topologicalSort_def)

lemma place_y_set_x_erase: "place_y ls (set_x (erase_xy c)) = place_y ls (set_x c)"
  by (cases c) (simp add: place_y_def place_y_at_def set_x_def erase_xy_def Let_def)

lemma set_x_name: "map c_name (map set_x cs) = map c_name cs"
  by (induction cs) (simp_all add: set_x_def)

lemma place_after_erase:
  assumes "map erase_xy cs' = map erase_xy cs"
  shows "map (place_y ls) (map set_x cs') = map (place_y ls) (map set_x cs)"
proof -
  have f: "map (place_y ls) (map set_x xs) = map (\<lambda>c. place_y ls (set_x c)) (map erase_xy xs)" for xs
    by (induction xs) (simp_all add: place_y_set_x_erase)
  show ?thesis by (simp only: f assms)
qed

lemma components_deterministic:
  assumes e: "map erase_xy (m_components m') = map erase_xy (m_components m)"
    and d: "m_dependencies m' = m_dependencies m"
    and v: "m_evolutions m' = m_evolutions m"
  shows "m_components (calculatePositions m') = m_components (calculatePositions m)"
proof -
  have n: "map c_name (map set_x (m_components m')) = map c_name (map set_x (m_components m))"
    using erase_xy_names [OF e] by (simp only: set_x_name)
  show ?thesis
    by (simp only: calculatePositions_alt d v topologicalSort_names [OF n] place_after_erase [OF e, of "topologicalSort (map set_x (m_components m)) (m_dependencies m)"])
qed

lemma calculatePositions_update:
  "calculatePositions m = m\<lparr>m_components := m_components (calculatePositions m)\<rparr>"
  by (simp add: calculatePositions_def Let_def)

lemma positions_deterministic:
  assumes "same_declared m' m"
  shows "calculatePositions m' = calculatePositions m"
proof -
  from assms have e: "map erase_xy (m_components m') = map erase_xy (m_components m)"
    and r: "m'\<lparr>m_components := []\<rparr> = m\<lparr>m_components := []\<rparr>"
    by (simp_all add: same_declared_def)
  have d: "m_dependencies m' = m_dependencies m"
    using arg_cong [OF r, of m_dependencies] by simp
  have v: "m_evolutions m' = m_evolutions m"
    using arg_cong [OF r, of m_evolutions] by simp
  have c: "m_components (calculatePositions m') = m_components (calculatePositions m)"
    using e d v by (rule components_deterministic)
  have u: "m'\<lparr>m_components := X\<rparr> = m\<lparr>m_components := X\<rparr>" for X
    using arg_cong [OF r, of "\<lambda>u. u\<lparr>m_components := X\<rparr>"] by simp
  have "calculatePositions m' = m'\<lparr>m_components := m_components (calculatePositions m')\<rparr>"
    by (rule calculatePositions_update)
  also have "\<dots> = m\<lparr>m_components := m_components (calculatePositions m)\<rparr>"
    by (simp only: c u)
  also have "\<dots> = calculatePositions m"
    by (rule calculatePositions_update [symmetric])
  finally show ?thesis .
qed

lemma same_declared_after_layout: "same_declared (calculatePositions m) m"
proof -
  have "(calculatePositions m)\<lparr>m_components := []\<rparr> = m\<lparr>m_components := []\<rparr>"
    by (simp add: calculatePositions_def Let_def)
  then show ?thesis by (simp only: same_declared_def positions_erase simp_thms)
qed

subsection \<open>The layout is total\<close>






















text \<open>
  The graph has to be valid: when a component is declared twice it enters the queue
  twice, and a name on a cycle can reach in-degree 0.
\<close>

lemma twice_declared_cycle:
  "(''D'', ''D'') \<in> (edge_rel (m_dependencies twice_map))\<^sup>+
   \<and> \<not> trapped (m_components twice_map) (m_dependencies twice_map) ''D''
   \<and> layers_of twice_map = [(''C'', 0), (''N'', 3), (''D'', 2)]"
proof -
  have "(''D'', ''N'') \<in> edge_rel (m_dependencies twice_map)"
    and "(''N'', ''D'') \<in> edge_rel (m_dependencies twice_map)"
    by (simp_all add: edge_rel_def twice_map_def mk_dependency_def)
  then have 1: "(''D'', ''D'') \<in> (edge_rel (m_dependencies twice_map))\<^sup>+"
    by (rule trancl_into_trancl [OF r_into_trancl])
  have 2: "\<not> trapped (m_components twice_map) (m_dependencies twice_map) ''D''"
    by code_simp
  have 3: "layers_of twice_map = [(''C'', 0), (''N'', 3), (''D'', 2)]"
    by code_simp
  from 1 2 3 show ?thesis by simp
qed


subsection \<open>Two runs give the same result\<close>

text \<open>
  Claim C7. Parser and layout are functions of their argument alone: the model has no
  clock, no random source and no state outside the map, so a second run on the same text
  starts from the same parse. What the code adds is mutation: the layout writes
  coordinates into the components it reads. The theorem lets the second layout run on
  any map with the declared content of the parsed one, whatever coordinates it holds,
  in particular on the object the first run has written to, and shows the result of the
  first run again, errors included. Coordinates are exact rationals here; the same
  operations in the same order give the same doubles in the code.
\<close>

theorem pipeline_deterministic:
  assumes "parseWardleyMap source = (Some m, errs)" and "same_declared m2 m"
  shows "(Some (calculatePositions m2), errs) = pipeline source"
  using assms positions_deterministic [of m2 m] by (simp add: pipeline_def)

theorem pipeline_deterministic_witness:
  "parseWardleyMap text_pair = (Some pair_map, [])
   \<and> same_declared (calculatePositions pair_map) pair_map
   \<and> (Some (calculatePositions (calculatePositions pair_map)), []) = pipeline text_pair"
proof -
  have p: "parseWardleyMap text_pair = (Some pair_map, [])" by code_simp
  have s: "same_declared (calculatePositions pair_map) pair_map"
    by (rule same_declared_after_layout)
  from pipeline_deterministic [OF p s] p s show ?thesis by simp
qed

subsection \<open>When references are checked\<close>

lemma rmatch_Lit: "rmatch (Lit l # as) s = Some r \<Longrightarrow> take (length l) s = l"
  by (simp split: if_splits)

lemma evolveMatch_prefix:
  "evolveMatch line = Some g \<Longrightarrow> take (length ''evolve'') line = ''evolve''"
proof -
  assume "evolveMatch line = Some g"
  then obtain r where "rmatch [Lit ''evolve'', Greedy is_space, Lazy is_dot, Greedy is_space, Lit ''->'',
                   Greedy is_space, Lazy is_dot, Greedy is_space,
                   Lit ''['', Greedy is_word, Lit '']''] line = Some r"
    by (auto simp: evolveMatch_def split: option.splits)
  from rmatch_Lit [OF this] show ?thesis .
qed

lemma declMatch_prefix: "declMatch kw line = Some g \<Longrightarrow> take (length kw) line = kw"
proof -
  assume "declMatch kw line = Some g"
  then obtain r where "rmatch [Lit kw, Greedy is_space, Lazy is_dot, Greedy is_space,
                   Lit ''['', Greedy is_word, Lit '']''] line = Some r"
    by (auto simp: declMatch_def split: option.splits)
  from rmatch_Lit [OF this] show ?thesis .
qed

lemma evolve_line_branch:
  assumes "take (length ''evolve'') line = ''evolve''"
  shows "line \<noteq> []" "\<not> startsWith line ''#''" "\<not> startsWith line ''title ''"
    "componentMatch line = None" "anchorMatch line = None"
proof -
  from assms obtain cs where l: "line = CHR ''e'' # cs" by (cases line) auto
  show "line \<noteq> []" using l by simp
  show "\<not> startsWith line ''#''" using l by (simp add: startsWith_def)
  show "\<not> startsWith line ''title ''" using l by (simp add: startsWith_def)
  show "componentMatch line = None"
  proof (cases "componentMatch line")
    case (Some g)
    from declMatch_prefix [OF Some [unfolded componentMatch_def]] l show ?thesis by simp
  qed simp
  show "anchorMatch line = None"
  proof (cases "anchorMatch line")
    case (Some g)
    from declMatch_prefix [OF Some [unfolded anchorMatch_def]] l show ?thesis by simp
  qed simp
qed

lemma process_evolve_line:
  assumes "evolveMatch (trim raw) = Some g"
  shows "process_line n raw st = evolve_components n g st"
  using assms evolve_line_branch [OF evolveMatch_prefix [OF assms]]
  by (simp add: process_line_def Let_def)

lemma process_chain_line:
  assumes "is_chain_line raw"
  shows "process_line n raw st =
     st\<lparr>ps_map := (ps_map st)\<lparr>m_dependencies :=
           m_dependencies (ps_map st) @ chain_edges 0 (split_arrow (trim raw))\<rparr>\<rparr>"
  using assms by (simp add: process_line_def is_chain_line_def Let_def parseDependencyChain_def)

lemma evolve_components_errors:
  "ps_errors (evolve_components n (a, b, stg) st) =
     ps_errors st @
       (if \<not> has (ps_componentMap st) (trim a)
          then [\<lparr>err_line = n, err_message = msg_not_declared (trim a)\<rparr>]
        else if \<not> has (ps_componentMap st) (trim b)
          then [\<lparr>err_line = n, err_message = msg_not_declared (trim b)\<rparr>]
        else [])"
  by (simp add: evolve_components_def Let_def push_error_def)

lemma parse_lines_run: "parse_lines ls st = run_lines 1 ls st"
  by (simp add: parse_lines_def run_lines_def)

lemma run_lines_simps:
  "run_lines k [] st = st"
  "run_lines k (l # ls) st = run_lines (Suc k) ls (process_line k l st)"
  by (simp_all add: run_lines_def)

lemma run_lines_append:
  "run_lines k (xs @ ys) st = run_lines (k + length xs) ys (run_lines k xs st)"
  by (induction xs arbitrary: k st) (simp_all add: run_lines_simps)

lemma declare_component_errors:
  "\<exists>es. ps_errors (declare_component anchor n g st) = ps_errors st @ es
     \<and> (\<forall>e \<in> set es. err_line e = n)"
  by (simp add: declare_component_def Let_def push_error_def)

lemma declare_component_deps:
  "m_dependencies (ps_map (declare_component anchor n g st)) = m_dependencies (ps_map st)"
  by (simp add: declare_component_def Let_def push_error_def)

lemma evolve_components_errors':
  "\<exists>es. ps_errors (evolve_components n g st) = ps_errors st @ es
     \<and> (\<forall>e \<in> set es. err_line e = n)"
  by (simp add: evolve_components_def Let_def push_error_def)

lemma evolve_components_deps:
  "m_dependencies (ps_map (evolve_components n g st)) = m_dependencies (ps_map st)"
  by (simp add: evolve_components_def Let_def push_error_def)

lemma evolve_stage_errors:
  "\<exists>es. ps_errors (evolve_stage n g st) = ps_errors st @ es
     \<and> (\<forall>e \<in> set es. err_line e = n)"
  by (simp add: evolve_stage_def Let_def push_error_def)

lemma evolve_stage_deps:
  "m_dependencies (ps_map (evolve_stage n g st)) = m_dependencies (ps_map st)"
  by (simp add: evolve_stage_def Let_def push_error_def)

lemma process_line_errors:
  "\<exists>es. ps_errors (process_line n raw st) = ps_errors st @ es
     \<and> (\<forall>e \<in> set es. err_line e = n)"
  using declare_component_errors [of _ n _ st] evolve_components_errors' [of n _ st]
    evolve_stage_errors [of n _ st]
  by (simp add: process_line_def Let_def push_error_def split: option.splits)

lemma process_line_deps:
  "\<exists>ds. m_dependencies (ps_map (process_line n raw st)) = m_dependencies (ps_map st) @ ds"
  by (simp add: process_line_def Let_def push_error_def declare_component_deps
      evolve_components_deps evolve_stage_deps parseDependencyChain_def split: option.splits)

lemma run_lines_errors:
  "\<exists>es. ps_errors (run_lines k ls st) = ps_errors st @ es
     \<and> (\<forall>e \<in> set es. k \<le> err_line e \<and> err_line e < k + length ls)"
proof (induction ls arbitrary: k st)
  case Nil
  show ?case by (simp add: run_lines_simps)
next
  case (Cons l ls)
  from process_line_errors [of k l st] obtain es1 where
    1: "ps_errors (process_line k l st) = ps_errors st @ es1" "\<forall>e \<in> set es1. err_line e = k"
    by blast
  from Cons.IH [of "Suc k" "process_line k l st"] obtain es2 where
    2: "ps_errors (run_lines (Suc k) ls (process_line k l st)) = ps_errors (process_line k l st) @ es2"
       "\<forall>e \<in> set es2. Suc k \<le> err_line e \<and> err_line e < Suc k + length ls"
    by blast
  have "ps_errors (run_lines k (l # ls) st) = ps_errors st @ (es1 @ es2)"
    using 1 2 by (simp add: run_lines_simps)
  moreover have "\<forall>e \<in> set (es1 @ es2). k \<le> err_line e \<and> err_line e < k + length (l # ls)"
    using 1 2 by fastforce
  ultimately show ?case by blast
qed

lemma run_lines_deps:
  "\<exists>ds. m_dependencies (ps_map (run_lines k ls st)) = m_dependencies (ps_map st) @ ds"
proof (induction ls arbitrary: k st)
  case Nil
  show ?case by (simp add: run_lines_simps)
next
  case (Cons l ls)
  from process_line_deps [of k l st] obtain d1 where
    1: "m_dependencies (ps_map (process_line k l st)) = m_dependencies (ps_map st) @ d1" by blast
  from Cons.IH [of "Suc k" "process_line k l st"] obtain d2 where
    2: "m_dependencies (ps_map (run_lines (Suc k) ls (process_line k l st))) =
        m_dependencies (ps_map (process_line k l st)) @ d2" by blast
  have "m_dependencies (ps_map (run_lines k (l # ls) st)) = m_dependencies (ps_map st) @ (d1 @ d2)"
    using 1 2 by (simp add: run_lines_simps)
  then show ?case by blast
qed

lemma validate_dependency_simps:
  "ps_errors (validate_dependency d st) = ps_errors st @ missing_refs (ps_componentMap st) d"
  "ps_componentMap (validate_dependency d st) = ps_componentMap st"
  "ps_map (validate_dependency d st) = ps_map st"
  by (simp_all add: validate_dependency_def missing_refs_def push_error_def Let_def)

lemma fold_validate:
  "ps_errors (fold validate_dependency ds st) =
     ps_errors st @ concat (map (missing_refs (ps_componentMap st)) ds)
   \<and> ps_componentMap (fold validate_dependency ds st) = ps_componentMap st
   \<and> ps_map (fold validate_dependency ds st) = ps_map st"
  by (induction ds arbitrary: st) (simp_all add: validate_dependency_simps)

lemma msg_referenced_inj: "msg_referenced a = msg_referenced b \<Longrightarrow> a = b"
  by (simp add: msg_referenced_def quoted_def)

lemma missing_refs_line: "e \<in> set (missing_refs cm d) \<Longrightarrow> err_line e = 0"
  by (auto simp: missing_refs_def split: if_splits)

lemma missing_refs_mem:
  "\<lparr>err_line = 0, err_message = msg_referenced n\<rparr> \<in> set (missing_refs cm d)
     \<longleftrightarrow> (n = d_from d \<or> n = d_to d) \<and> \<not> has cm n"
  by (auto simp: missing_refs_def dest: msg_referenced_inj)

text \<open>
  Claim C10. Let a text have the line \<open>raw\<close> after the lines \<open>pre\<close>. If \<open>raw\<close> is an
  \<open>evolve a -> b [stage]\<close> line, the parser reports an error with the number of this line
  unless both names are in the component table built from \<open>pre\<close>. If \<open>raw\<close> is a
  dependency chain, no error carries its line number, and for each end of each of its
  edges the error of line 0 naming that end is reported exactly when the name is missing
  from the table built from the whole text: a declaration after the line serves as well
  as one before it.
\<close>

theorem reference_validation_timing:
  assumes src: "split_char (CHR 0x0A) source = pre @ raw # post"
  shows "(evolveMatch (trim raw) = Some (a, b, stg) \<longrightarrow>
            (declared_before pre (trim a) \<and> declared_before pre (trim b))
              = (\<forall>e \<in> set (snd (parseWardleyMap source)). err_line e \<noteq> Suc (length pre)))
       \<and> (is_chain_line raw \<longrightarrow>
            (\<forall>e \<in> set (snd (parseWardleyMap source)). err_line e \<noteq> Suc (length pre))
          \<and> (\<forall>d \<in> set (chain_edges 0 (split_arrow (trim raw))).
               ((\<lparr>err_line = 0, err_message = msg_referenced (d_from d)\<rparr>
                    \<in> set (snd (parseWardleyMap source))) = (\<not> declared_in source (d_from d)))
             \<and> ((\<lparr>err_line = 0, err_message = msg_referenced (d_to d)\<rparr>
                    \<in> set (snd (parseWardleyMap source))) = (\<not> declared_in source (d_to d)))))"
proof -
  define n where "n = Suc (length pre)"
  define st_pre where "st_pre = run_lines 1 pre pstate_empty"
  define st_line where "st_line = process_line n raw st_pre"
  define st_all where "st_all = run_lines (Suc n) post st_line"
  define cm where "cm = ps_componentMap st_all"
  define deps where "deps = m_dependencies (ps_map st_all)"
  define errors where "errors = snd (parseWardleyMap source)"
  have all: "parse_lines (pre @ raw # post) pstate_empty = st_all"
    by (simp add: parse_lines_run run_lines_append run_lines_simps st_all_def st_line_def
        st_pre_def n_def)
  have fin: "parse_state source = fold validate_dependency deps st_all"
    by (simp add: parse_state_def src all deps_def Let_def)
  have errs: "errors = ps_errors st_all @ concat (map (missing_refs cm) deps)"
    by (simp add: errors_def parseWardleyMap_def Let_def fin fold_validate cm_def)
  have cm_fin: "declared_in source k = has cm k" for k
    by (simp add: declared_in_def fin fold_validate cm_def)
  from run_lines_errors [of 1 pre pstate_empty] obtain e_pre where
    "ps_errors st_pre = ps_errors pstate_empty @ e_pre"
    and "\<forall>e \<in> set e_pre. 1 \<le> err_line e \<and> err_line e < 1 + length pre"
    unfolding st_pre_def by blast
  then have e_pre: "ps_errors st_pre = e_pre"
      "\<forall>e \<in> set e_pre. 0 < err_line e \<and> err_line e < n"
    by (auto simp: pstate_empty_def n_def Suc_le_eq)
  from process_line_errors [of n raw st_pre] obtain e_line where
    "ps_errors st_line = ps_errors st_pre @ e_line" and "\<forall>e \<in> set e_line. err_line e = n"
    unfolding st_line_def by blast
  then have e_line: "ps_errors st_line = e_pre @ e_line" "\<forall>e \<in> set e_line. err_line e = n"
    by (simp_all add: e_pre(1))
  from run_lines_errors [of "Suc n" post st_line] obtain e_post where
    "ps_errors st_all = ps_errors st_line @ e_post"
    and "\<forall>e \<in> set e_post. Suc n \<le> err_line e \<and> err_line e < Suc n + length post"
    unfolding st_all_def by blast
  then have e_post: "ps_errors st_all = e_pre @ e_line @ e_post" "\<forall>e \<in> set e_post. n < err_line e"
    by (auto simp: e_line(1))
  have e_val: "\<forall>e \<in> set (concat (map (missing_refs cm) deps)). err_line e = 0"
    by (auto dest: missing_refs_line)
  have n_pos: "0 < n" by (simp add: n_def)
  have at_line: "(\<forall>e \<in> set errors. err_line e \<noteq> n) \<longleftrightarrow> e_line = []"
  proof
    assume "\<forall>e \<in> set errors. err_line e \<noteq> n"
    then have "\<forall>e \<in> set e_line. err_line e \<noteq> n" by (simp add: errs e_post(1))
    with e_line(2) show "e_line = []" by (cases e_line) auto
  next
    assume "e_line = []"
    then show "\<forall>e \<in> set errors. err_line e \<noteq> n"
      using e_pre(2) e_post(2) e_val n_pos by (fastforce simp: errs e_post(1))
  qed
  have zero: "\<lparr>err_line = 0, err_message = msg_referenced k\<rparr> \<in> set errors
        \<longleftrightarrow> (\<exists>d \<in> set deps. (k = d_from d \<or> k = d_to d) \<and> \<not> has cm k)" for k
  proof -
    have "\<lparr>err_line = 0, err_message = msg_referenced k\<rparr> \<notin> set (ps_errors st_all)"
      using e_pre(2) e_line(2) e_post(2) n_pos by (fastforce simp: e_post(1))
    then show ?thesis by (auto simp: errs missing_refs_mem)
  qed
  have part_a: "(declared_before pre (trim a) \<and> declared_before pre (trim b))
              = (\<forall>e \<in> set errors. err_line e \<noteq> n)"
    if m: "evolveMatch (trim raw) = Some (a, b, stg)"
  proof -
    have "ps_errors st_line = e_pre @
       (if \<not> has (ps_componentMap st_pre) (trim a)
          then [\<lparr>err_line = n, err_message = msg_not_declared (trim a)\<rparr>]
        else if \<not> has (ps_componentMap st_pre) (trim b)
          then [\<lparr>err_line = n, err_message = msg_not_declared (trim b)\<rparr>]
        else [])"
      by (simp add: st_line_def process_evolve_line [OF m] evolve_components_errors e_pre(1))
    with e_line(1) have "e_line = [] \<longleftrightarrow>
        has (ps_componentMap st_pre) (trim a) \<and> has (ps_componentMap st_pre) (trim b)"
      by (auto split: if_splits)
    then show ?thesis
      by (simp add: at_line declared_before_def parse_lines_run st_pre_def)
  qed
  have part_b: "(\<forall>e \<in> set errors. err_line e \<noteq> n)
          \<and> (\<forall>d \<in> set (chain_edges 0 (split_arrow (trim raw))).
               ((\<lparr>err_line = 0, err_message = msg_referenced (d_from d)\<rparr> \<in> set errors)
                   = (\<not> declared_in source (d_from d)))
             \<and> ((\<lparr>err_line = 0, err_message = msg_referenced (d_to d)\<rparr> \<in> set errors)
                   = (\<not> declared_in source (d_to d))))"
    if c: "is_chain_line raw"
  proof -
    have sl: "st_line = st_pre\<lparr>ps_map := (ps_map st_pre)\<lparr>m_dependencies :=
           m_dependencies (ps_map st_pre) @ chain_edges 0 (split_arrow (trim raw))\<rparr>\<rparr>"
      unfolding st_line_def by (rule process_chain_line [OF c])
    then have "ps_errors st_line = e_pre" by (simp add: e_pre(1))
    with e_line(1) have "e_line = []" by simp
    then have 1: "\<forall>e \<in> set errors. err_line e \<noteq> n" by (simp add: at_line)
    from run_lines_deps [of "Suc n" post st_line] obtain ds where
      "deps = m_dependencies (ps_map st_line) @ ds" by (auto simp: deps_def st_all_def)
    then have sub: "set (chain_edges 0 (split_arrow (trim raw))) \<subseteq> set deps"
      by (auto simp: sl)
    have 2: "(\<lparr>err_line = 0, err_message = msg_referenced (d_from d)\<rparr> \<in> set errors)
                   = (\<not> declared_in source (d_from d))
            \<and> (\<lparr>err_line = 0, err_message = msg_referenced (d_to d)\<rparr> \<in> set errors)
                   = (\<not> declared_in source (d_to d))"
      if "d \<in> set (chain_edges 0 (split_arrow (trim raw)))" for d
    proof -
      from that sub have "d \<in> set deps" by auto
      then show ?thesis by (auto simp: zero cm_fin)
    qed
    from 1 2 show ?thesis by blast
  qed
  show ?thesis using part_a part_b unfolding errors_def n_def by blast
qed

theorem reference_validation_timing_witness:
  "split_char (CHR 0x0A) text_evolve_first =
       [] @ ''evolve A -> B [product]'' # [''component A [genesis]'', ''component B [custom]'']
   \<and> evolveMatch (trim ''evolve A -> B [product]'') = Some (''A'', ''B'', ''product'')
   \<and> \<not> declared_before [] ''A''
   \<and> (\<exists>e \<in> set (snd (parseWardleyMap text_evolve_first)). err_line e = 1)
   \<and> split_char (CHR 0x0A) text_chain_first =
       [] @ ''A -> B'' # [''component A [genesis]'', ''component B [custom]'']
   \<and> is_chain_line ''A -> B''
   \<and> declared_in text_chain_first ''A''
   \<and> \<lparr>err_line = 0, err_message = msg_referenced ''A''\<rparr>
        \<notin> set (snd (parseWardleyMap text_chain_first))"
proof -
  have s1: "split_char (CHR 0x0A) text_evolve_first =
       [] @ ''evolve A -> B [product]'' # [''component A [genesis]'', ''component B [custom]'']"
    by code_simp
  have m1: "evolveMatch (trim ''evolve A -> B [product]'') = Some (''A'', ''B'', ''product'')"
    by code_simp
  have d1: "\<not> declared_before [] ''A''"
    by (simp add: declared_before_def parse_lines_def pstate_empty_def has_def)
  have t1: "trim ''A'' = ''A''" by code_simp
  from reference_validation_timing [OF s1, of "''A''" "''B''" "''product''"] m1 d1 t1
  have e1: "\<exists>e \<in> set (snd (parseWardleyMap text_evolve_first)). err_line e = 1"
    by auto
  have s2: "split_char (CHR 0x0A) text_chain_first =
       [] @ ''A -> B'' # [''component A [genesis]'', ''component B [custom]'']"
    by code_simp
  have c2: "is_chain_line ''A -> B''" by code_simp
  have d2: "declared_in text_chain_first ''A''" by code_simp
  have ed: "chain_edges 0 (split_arrow (trim ''A -> B'')) = [mk_dependency ''A'' ''B'']"
    by code_simp
  from reference_validation_timing [OF s2] c2 d2 ed
  have e2: "\<lparr>err_line = 0, err_message = msg_referenced ''A''\<rparr>
        \<notin> set (snd (parseWardleyMap text_chain_first))"
    by (simp add: mk_dependency_def)
  from s1 m1 d1 e1 s2 c2 d2 e2 show ?thesis by blast
qed

subsection \<open>The parser returns valid graphs\<close>

text \<open>
  A map that the parser returns has distinct component names and only dependencies
  between declared components: the graphs of the layering theorem are the graphs the
  layout receives.
\<close>

lemma has_update: "has (AList.update k v m) n \<longleftrightarrow> n = k \<or> has m n"
  by (simp add: has_def update_conv')

lemma declare_component_table:
  "table_ok st \<Longrightarrow> table_ok (declare_component anchor n g st)"
  by (auto simp: table_ok_def declare_component_def Let_def push_error_def has_update)

lemma process_line_table: "table_ok st \<Longrightarrow> table_ok (process_line n raw st)"
proof -
  assume t: "table_ok st"
  have keep: "table_ok st'"
    if "ps_componentMap st' = ps_componentMap st"
       "m_components (ps_map st') = m_components (ps_map st)" for st'
    using t that by (simp add: table_ok_def)
  show ?thesis
    unfolding process_line_def Let_def
    by (auto split: option.splits intro!: keep declare_component_table [OF t] t
        simp: evolve_components_def evolve_stage_def push_error_def Let_def)
qed

lemma parse_lines_table: "table_ok st \<Longrightarrow> table_ok (parse_lines ls st)"
proof -
  have "table_ok st \<Longrightarrow> table_ok (fold (\<lambda>il. process_line (fst il) (snd il)) ils st)" for ils
    by (induction ils arbitrary: st) (simp_all add: process_line_table)
  then show "table_ok st \<Longrightarrow> table_ok (parse_lines ls st)" by (simp add: parse_lines_def)
qed

lemma missing_refs_empty:
  "missing_refs cm d = [] \<longleftrightarrow> has cm (d_from d) \<and> has cm (d_to d)"
  by (simp add: missing_refs_def)

lemma parsed_graph_valid:
  assumes "parseWardleyMap source = (Some m, errs)"
  shows "valid_graph (m_components m) (m_dependencies m)"
proof -
  define st where "st = parse_lines (split_char (CHR 0x0A) source) pstate_empty"
  define fin where "fin = fold validate_dependency (m_dependencies (ps_map st)) st"
  have ps: "parse_state source = fin" by (simp add: parse_state_def st_def fin_def Let_def)
  from assms have e: "ps_errors fin = []" and m: "m = ps_map fin"
    by (auto simp: parseWardleyMap_def ps Let_def split: if_splits)
  have mm: "ps_map fin = ps_map st" by (simp add: fin_def fold_validate)
  have "table_ok pstate_empty" by (simp add: table_ok_def pstate_empty_def has_def)
  then have t: "table_ok st" unfolding st_def by (rule parse_lines_table)
  have "ps_errors st @ concat (map (missing_refs (ps_componentMap st)) (m_dependencies (ps_map st))) = []"
    using e by (simp add: fin_def fold_validate)
  then have "\<forall>d \<in> set (m_dependencies (ps_map st)). missing_refs (ps_componentMap st) d = []"
    by simp
  then have "\<forall>d \<in> set (m_dependencies (ps_map st)).
      has (ps_componentMap st) (d_from d) \<and> has (ps_componentMap st) (d_to d)"
    by (simp add: missing_refs_empty)
  with t show ?thesis
    by (simp add: valid_graph_def m mm table_ok_def)
qed

subsection \<open>The vertical coordinate stays in the unit interval\<close>

text \<open>
  Whatever the graph, every y lies in \<open>[0, 1)\<close>: a layer is at most \<open>maxLayer\<close>, the
  anchor pin writes 0, an evolution copies the y of another component, and spreading
  changes x only. It is x that can leave the unit interval.
\<close>

lemma fold_max_ge: "(a::nat) \<le> fold max vs a \<and> (\<forall>v \<in> set vs. v \<le> fold max vs a)"
proof (induction vs arbitrary: a)
  case Nil
  show ?case by simp
next
  case (Cons x vs)
  from Cons.IH [of "max x a"] show ?case by auto
qed

lemma layer_le_maxLayer: "layer_or0 ls n \<le> maxLayer_of ls"
proof (cases "map_of ls n")
  case None
  then show ?thesis by (simp add: layer_or0_def)
next
  case (Some v)
  then have "(n, v) \<in> set ls" by (rule map_of_SomeD)
  then have "v \<in> set (map snd ls)" by force
  then have "v \<le> fold max (map snd ls) 0" using fold_max_ge [of 0 "map snd ls"] by blast
  with Some show ?thesis by (simp add: layer_or0_def maxLayer_of_def)
qed

lemma layer_y_unit: "l \<le> M \<Longrightarrow> 0 \<le> layer_y M l \<and> layer_y M l < 1"
proof -
  assume "l \<le> M"
  then have "(of_nat l :: rat) \<le> of_nat M" by simp
  moreover have "(0 :: rat) \<le> of_nat l" by simp
  ultimately show ?thesis by (simp add: layer_y_def)
qed

lemma place_y_unit: "unit_y (place_y ls c)"
  using layer_y_unit [OF layer_le_maxLayer [of ls "c_name c"]]
  by (simp add: place_y_def place_y_at_def Let_def unit_y_def)

lemma find_by_name_less: "find_by_name n cs = Some i \<Longrightarrow> i < length cs"
  by (induction cs arbitrary: i) (auto split: if_splits)

lemma inherit_y_unit:
  assumes "\<forall>c \<in> set cs. unit_y c"
  shows "\<forall>c \<in> set (inherit_y e cs). unit_y c"
proof (cases "find_by_name (e_from e) cs")
  case None
  with assms show ?thesis by (simp add: inherit_y_def)
next
  case (Some i)
  then have "cs ! i \<in> set cs" using find_by_name_less by simp
  with assms have u: "unit_y (cs ! i)" by blast
  then obtain v where v: "c_y (cs ! i) = Some v" "0 \<le> v" "v < 1"
    by (auto simp: unit_y_def split: option.splits)
  have "\<forall>c \<in> set (cs[j := (cs ! j)\<lparr>c_y := Some v\<rparr>]). unit_y c" for j
  proof
    fix c assume "c \<in> set (cs[j := (cs ! j)\<lparr>c_y := Some v\<rparr>])"
    then have "c = (cs ! j)\<lparr>c_y := Some v\<rparr> \<or> c \<in> set cs"
      using set_update_subset_insert [of cs j] by blast
    with assms v show "unit_y c" by (auto simp: unit_y_def)
  qed
  with assms Some v show ?thesis by (simp add: inherit_y_def split: option.splits)
qed

lemma fold_inherit_y_unit:
  "\<forall>c \<in> set cs. unit_y c \<Longrightarrow> \<forall>c \<in> set (fold inherit_y es cs). unit_y c"
proof (induction es arbitrary: cs)
  case Nil
  then show ?case by simp
next
  case (Cons e es)
  from Cons.prems have "\<forall>c \<in> set (inherit_y e cs). unit_y c" by (rule inherit_y_unit)
  then have "\<forall>c \<in> set (fold inherit_y es (inherit_y e cs)). unit_y c" by (rule Cons.IH)
  then show ?case by simp
qed

lemma y_in_unit_interval:
  "\<forall>c \<in> set (m_components (calculatePositions m)). unit_y c"
proof -
  define ls where "ls = topologicalSort (map set_x (m_components m)) (m_dependencies m)"
  define cs2 where "cs2 = map (place_y ls) (map set_x (m_components m))"
  define cs3 where "cs3 = fold inherit_y (m_evolutions m) cs2"
  have r: "m_components (calculatePositions m) = spreadOverlappingComponents cs3"
    by (simp add: calculatePositions_alt cs3_def cs2_def ls_def)
  have "\<forall>c \<in> set cs2. unit_y c" by (simp add: cs2_def place_y_unit)
  then have 3: "\<forall>c \<in> set cs3. unit_y c" unfolding cs3_def by (rule fold_inherit_y_unit)
  have "map c_y (spreadOverlappingComponents cs3) = map c_y cs3"
    using spread_erase_x [of cs3] erase_x_fields by blast
  then have "c_y ` set (spreadOverlappingComponents cs3) = c_y ` set cs3"
    by (metis set_map)
  with 3 show ?thesis unfolding r unit_y_def by (metis (no_types, lifting) imageE imageI)
qed

end
